theory Spec2Isabelle
  imports Main
begin

section \<open>Values, errors and Python strings\<close>

text \<open>
  The quiz questions travel as JSON objects, that is Python dictionaries from key strings
  to values. The values that occur are strings (the spellings and the note) and integers
  (the level and the group index); every other JSON value behaves like an integer in the
  code below: it has no \<open>lower\<close> method.
\<close>

datatype jval = JStr string | JInt int

type_synonym pydict = "string \<rightharpoonup> jval"

datatype error = KeyError | IndexError | AttributeError | ValueError | IntegrityError

text \<open>
  A Python \<open>str\<close> is a sequence of code points. The model covers the code points
  U+0000 to U+00FF, one \<open>char\<close> each. On that range \<open>str.isspace\<close> holds for
  exactly the twelve code points below, and \<open>str.lower\<close> changes exactly the
  letters A to Z and U+00C0 to U+00DE without the multiplication sign U+00D7, each by
  adding 32.
\<close>

definition isspace :: "char \<Rightarrow> bool" where
  "isspace c = (let n = (of_char c :: nat) in
     (9 \<le> n \<and> n \<le> 13) \<or> (28 \<le> n \<and> n \<le> 32) \<or> n = 133 \<or> n = 160)"

definition isupper :: "char \<Rightarrow> bool" where
  "isupper c = (let n = (of_char c :: nat) in
     (65 \<le> n \<and> n \<le> 90) \<or> (192 \<le> n \<and> n \<le> 222 \<and> n \<noteq> 215))"

definition lower_char :: "char \<Rightarrow> char" where
  "lower_char c = (if isupper c then char_of ((of_char c :: nat) + 32) else c)"

definition lower :: "string \<Rightarrow> string" where
  "lower s = map lower_char s"

definition strip :: "string \<Rightarrow> string" where
  "strip s = rev (dropWhile isspace (rev (dropWhile isspace s)))"

text \<open>
  \<open>xs[i]\<close> on a Python list of length \<open>n\<close>: the indices \<open>0\<close> to \<open>n - 1\<close> read
  from the front, the indices \<open>-n\<close> to \<open>-1\<close> read from the back, and every other
  index raises \<open>IndexError\<close>.
\<close>

definition py_index :: "'a list \<Rightarrow> int \<Rightarrow> error + 'a" where
  "py_index xs i =
     (if 0 \<le> i \<and> i < int (length xs) then Inr (xs ! nat i)
      else if i < 0 \<and> - int (length xs) \<le> i then Inr (xs ! nat (int (length xs) + i))
      else Inl IndexError)"

text \<open>\<open>d[k]\<close> on a dictionary raises \<open>KeyError\<close> for a missing key.\<close>

definition py_getitem :: "pydict \<Rightarrow> string \<Rightarrow> error + jval" where
  "py_getitem d k = (case d k of None \<Rightarrow> Inl KeyError | Some v \<Rightarrow> Inr v)"

section \<open>The word catalog\<close>

record word_group =
  name :: string
  level :: int
  "words" :: "pydict list"

definition WORD_GROUPS :: "word_group list" where
  "WORD_GROUPS =
   [\<lparr>name = ''Group 1'', level = 1, words =
      [[''us'' \<mapsto> JStr ''canceled'', ''ca'' \<mapsto> JStr ''cancelled'', ''gb'' \<mapsto> JStr ''cancelled'',
        ''au'' \<mapsto> JStr ''cancelled'', ''nz'' \<mapsto> JStr ''cancelled''],
       [''us'' \<mapsto> JStr ''traveled'', ''ca'' \<mapsto> JStr ''travelled'', ''gb'' \<mapsto> JStr ''travelled'',
        ''au'' \<mapsto> JStr ''travelled'', ''nz'' \<mapsto> JStr ''travelled'']]\<rparr>,
    \<lparr>name = ''Group 2'', level = 1, words =
      [[''us'' \<mapsto> JStr ''defense'', ''ca'' \<mapsto> JStr ''defence'', ''gb'' \<mapsto> JStr ''defence'',
        ''au'' \<mapsto> JStr ''defence'', ''nz'' \<mapsto> JStr ''defence'']]\<rparr>,
    \<lparr>name = ''Group 3'', level = 1, words =
      [[''us'' \<mapsto> JStr ''learned'', ''ca'' \<mapsto> JStr ''learnt'', ''gb'' \<mapsto> JStr ''learnt'',
        ''au'' \<mapsto> JStr ''learnt'', ''nz'' \<mapsto> JStr ''learnt''],
       [''us'' \<mapsto> JStr ''dreamed'', ''ca'' \<mapsto> JStr ''dreamt'', ''gb'' \<mapsto> JStr ''dreamt'',
        ''au'' \<mapsto> JStr ''dreamt'', ''nz'' \<mapsto> JStr ''dreamt'']]\<rparr>,
    \<lparr>name = ''Group 4'', level = 1, words =
      [[''us'' \<mapsto> JStr ''catalog'', ''ca'' \<mapsto> JStr ''catalogue'', ''gb'' \<mapsto> JStr ''catalogue'',
        ''au'' \<mapsto> JStr ''catalogue'', ''nz'' \<mapsto> JStr ''catalogue''],
       [''us'' \<mapsto> JStr ''dialog'', ''ca'' \<mapsto> JStr ''dialogue'', ''gb'' \<mapsto> JStr ''dialogue'',
        ''au'' \<mapsto> JStr ''dialogue'', ''nz'' \<mapsto> JStr ''dialogue'']]\<rparr>,
    \<lparr>name = ''Group 5'', level = 2, words =
      [[''us'' \<mapsto> JStr ''tire'', ''ca'' \<mapsto> JStr ''tire'', ''gb'' \<mapsto> JStr ''tyre'',
        ''au'' \<mapsto> JStr ''tyre'', ''nz'' \<mapsto> JStr ''tyre'']]\<rparr>,
    \<lparr>name = ''Group 6'', level = 2, words =
      [[''us'' \<mapsto> JStr ''colorize'', ''ca'' \<mapsto> JStr ''colourize'', ''gb'' \<mapsto> JStr ''colourise'',
        ''au'' \<mapsto> JStr ''colourise'', ''nz'' \<mapsto> JStr ''colourise'']]\<rparr>,
    \<lparr>name = ''Group 7'', level = 3, words =
      [[''us'' \<mapsto> JStr ''program'', ''ca'' \<mapsto> JStr ''program'', ''gb'' \<mapsto> JStr ''program'',
        ''au'' \<mapsto> JStr ''program'', ''nz'' \<mapsto> JStr ''program'',
        ''note'' \<mapsto> JStr ''computer program'']]\<rparr>,
    \<lparr>name = ''Group 8'', level = 3, words =
      [[''us'' \<mapsto> JStr ''program'', ''ca'' \<mapsto> JStr ''program'', ''gb'' \<mapsto> JStr ''programme'',
        ''au'' \<mapsto> JStr ''program'', ''nz'' \<mapsto> JStr ''programme'',
        ''note'' \<mapsto> JStr ''concert program'']]\<rparr>]"

text \<open>The two properties of a catalog entry that the specification states.\<close>

definition populated :: "pydict \<Rightarrow> bool" where
  "populated w = list_all (\<lambda>k. case w k of Some (JStr s) \<Rightarrow> s \<noteq> [] | _ \<Rightarrow> False)
     [''us'', ''ca'', ''gb'', ''au'', ''nz'']"

definition same_outside_us :: "pydict \<Rightarrow> bool" where
  "same_outside_us w = (w ''gb'' = w ''ca'' \<and> w ''au'' = w ''ca'' \<and> w ''nz'' = w ''ca'')"

section \<open>The quiz generator\<close>

text \<open>
  \<open>random.randint(a, b)\<close> is the only source of randomness. The generator takes it as
  an oracle: \<open>rnd k a b\<close> is what the \<open>k\<close>-th call returns for the bounds \<open>a\<close> and
  \<open>b\<close>. The library raises \<open>ValueError\<close> for an empty range and otherwise returns a
  number within the bounds, which is what \<open>randint_ok\<close> says of an oracle.
\<close>

type_synonym rng = "nat \<Rightarrow> int \<Rightarrow> int \<Rightarrow> int"

definition randint_ok :: "rng \<Rightarrow> bool" where
  "randint_ok rnd = (\<forall>k a b. a \<le> b \<longrightarrow> a \<le> rnd k a b \<and> rnd k a b \<le> b)"

definition randint :: "rng \<Rightarrow> nat \<Rightarrow> int \<Rightarrow> int \<Rightarrow> error + int" where
  "randint rnd k a b = (if a \<le> b then Inr (rnd k a b) else Inl ValueError)"

text \<open>
  The loop of \<open>select_words\<close> over \<open>enumerate(WORD_GROUPS)\<close>: \<open>group_index\<close> is the
  position of the group, which is also the number of the call of \<open>randint\<close>.
\<close>

fun select_words_loop :: "rng \<Rightarrow> nat \<Rightarrow> word_group list \<Rightarrow> error + pydict list" where
  "select_words_loop rnd group_index [] = Inr []"
| "select_words_loop rnd group_index (grp # rest) =
     (case randint rnd group_index 0 (int (length (words grp)) - 1) of
        Inl e \<Rightarrow> Inl e
      | Inr random_index \<Rightarrow>
          (case py_index (words grp) random_index of
             Inl e \<Rightarrow> Inl e
           | Inr word \<Rightarrow>
               (case select_words_loop rnd (Suc group_index) rest of
                  Inl e \<Rightarrow> Inl e
                | Inr selected \<Rightarrow>
                    Inr (word(''groupIndex'' \<mapsto> JInt (int group_index),
                              ''level'' \<mapsto> JInt (level grp)) # selected))))"

definition select_words :: "rng \<Rightarrow> error + pydict list" where
  "select_words rnd = select_words_loop rnd 0 WORD_GROUPS"

text \<open>
  One question of \<open>generate_quiz_data\<close>: five spellings and the level are read with
  \<open>word[key]\<close>, the note with \<open>word.get("note", "")\<close>.
\<close>

definition quiz_entry :: "pydict \<Rightarrow> error + pydict" where
  "quiz_entry word =
     (case py_getitem word ''us'' of Inl e \<Rightarrow> Inl e | Inr us \<Rightarrow>
     (case py_getitem word ''ca'' of Inl e \<Rightarrow> Inl e | Inr ca \<Rightarrow>
     (case py_getitem word ''gb'' of Inl e \<Rightarrow> Inl e | Inr gb \<Rightarrow>
     (case py_getitem word ''au'' of Inl e \<Rightarrow> Inl e | Inr au \<Rightarrow>
     (case py_getitem word ''nz'' of Inl e \<Rightarrow> Inl e | Inr nz \<Rightarrow>
     (case py_getitem word ''level'' of Inl e \<Rightarrow> Inl e | Inr lv \<Rightarrow>
        Inr [''us'' \<mapsto> us, ''ca'' \<mapsto> ca, ''gb'' \<mapsto> gb, ''au'' \<mapsto> au, ''nz'' \<mapsto> nz,
             ''note'' \<mapsto> (case word ''note'' of None \<Rightarrow> JStr [] | Some v \<Rightarrow> v),
             ''level'' \<mapsto> lv]))))))"

fun quiz_entries :: "pydict list \<Rightarrow> error + pydict list" where
  "quiz_entries [] = Inr []"
| "quiz_entries (word # rest) =
     (case quiz_entry word of
        Inl e \<Rightarrow> Inl e
      | Inr q \<Rightarrow> (case quiz_entries rest of Inl e \<Rightarrow> Inl e | Inr qs \<Rightarrow> Inr (q # qs)))"

definition generate_quiz_data :: "rng \<Rightarrow> error + pydict list" where
  "generate_quiz_data rnd =
     (case select_words rnd of Inl e \<Rightarrow> Inl e | Inr selected_words \<Rightarrow> quiz_entries selected_words)"

text \<open>
  What a question built from a word of a group looks like: the word's five spellings,
  its note or the empty string, and the group's level.
\<close>

definition question_of :: "word_group \<Rightarrow> pydict \<Rightarrow> pydict \<Rightarrow> bool" where
  "question_of g w q =
     (q ''us'' = w ''us'' \<and> q ''ca'' = w ''ca'' \<and> q ''gb'' = w ''gb'' \<and> q ''au'' = w ''au'' \<and>
      q ''nz'' = w ''nz'' \<and>
      q ''note'' = Some (case w ''note'' of None \<Rightarrow> JStr [] | Some v \<Rightarrow> v) \<and>
      q ''level'' = Some (JInt (level g)) \<and>
      dom q = {''us'', ''ca'', ''gb'', ''au'', ''nz'', ''note'', ''level''})"

section \<open>The answer grader\<close>

text \<open>
  A submitted answer is a JSON object whose four keys may each be missing. A key that is
  present has a value of the type that the specification gives it: an integer, a truth
  value and two strings; values of other JSON types are outside the model. The fields of
  the graded result that share a name with a field of the submission carry the suffix
  \<open>_res\<close>; \<open>correctAnswer = None\<close> is Python's \<open>None\<close>, and \<open>country_res = None\<close>
  is a result without the key \<open>country\<close>.
\<close>

record answer_data =
  wordIndex :: "int option"
  isLevel1 :: "bool option"
  answer :: "string option"
  country :: "string option"

record result =
  wordIndex_res :: int
  isLevel1_res :: bool
  correct :: bool
  correctAnswer :: "string option"
  userAnswer :: string
  country_res :: "string option"

text \<open>The three variables that the grading loop of \<open>check_answers\<close> updates.\<close>

record tally =
  results :: "result list"
  correct_count :: int
  total_count :: int

definition tally0 :: tally where
  "tally0 = \<lparr>results = [], correct_count = 0, total_count = 0\<rparr>"

text \<open>
  Both branches of the loop body end the same way once the correct answer is known: the
  result takes the correct answer, the total goes up, the lower-cased correct answer is
  compared with the normalised user answer (a value without \<open>lower\<close> raises
  \<open>AttributeError\<close>), and the result is appended.
\<close>

definition compare_answer :: "tally \<Rightarrow> result \<Rightarrow> jval \<Rightarrow> string \<Rightarrow> error + tally" where
  "compare_answer st res correct_answer user_answer =
     (case correct_answer of
        JInt _ \<Rightarrow> Inl AttributeError
      | JStr spelling \<Rightarrow>
          (if user_answer = lower spelling
           then Inr \<lparr>results = results st @ [res\<lparr>correctAnswer := Some spelling, correct := True\<rparr>],
                     correct_count = correct_count st + 1,
                     total_count = total_count st + 1\<rparr>
           else Inr \<lparr>results = results st @ [res\<lparr>correctAnswer := Some spelling\<rparr>],
                     correct_count = correct_count st,
                     total_count = total_count st + 1\<rparr>))"

definition skip_answer :: "tally \<Rightarrow> result \<Rightarrow> tally" where
  "skip_answer st res = st\<lparr>results := results st @ [res]\<rparr>"

text \<open>\<open>answer_data.get("isLevel1", False)\<close> and \<open>answer_data.get("answer", "")\<close>.\<close>

definition get_isLevel1 :: "answer_data \<Rightarrow> bool" where
  "get_isLevel1 a = (case isLevel1 a of None \<Rightarrow> False | Some b \<Rightarrow> b)"

definition get_answer :: "answer_data \<Rightarrow> string" where
  "get_answer a = (case answer a of None \<Rightarrow> [] | Some s \<Rightarrow> s)"

text \<open>The dictionary \<open>result\<close> as the loop body first builds it.\<close>

definition new_result :: "int \<Rightarrow> answer_data \<Rightarrow> result" where
  "new_result word_index a =
     \<lparr>wordIndex_res = word_index, isLevel1_res = get_isLevel1 a, correct = False,
      correctAnswer = None, userAnswer = strip (get_answer a), country_res = None\<rparr>"

text \<open>One iteration of the loop over the submitted answers.\<close>

definition grade_answer :: "pydict list \<Rightarrow> tally \<Rightarrow> answer_data \<Rightarrow> error + tally" where
  "grade_answer quiz_data st answer_data =
     (case wordIndex answer_data of
        None \<Rightarrow> Inl KeyError
      | Some word_index \<Rightarrow>
          (let is_level1 = get_isLevel1 answer_data;
               user_answer = lower (strip (get_answer answer_data))
           in case py_index quiz_data word_index of
                Inl e \<Rightarrow> Inl e
              | Inr word \<Rightarrow>
                  (let res = new_result word_index answer_data
                   in if is_level1
                      then (case py_getitem word ''ca'' of
                              Inl e \<Rightarrow> Inl e
                            | Inr correct_answer \<Rightarrow>
                                compare_answer st res correct_answer user_answer)
                      else (case country answer_data of
                              None \<Rightarrow> Inr (skip_answer st res)
                            | Some c \<Rightarrow>
                                (if c \<noteq> [] \<and> word c \<noteq> None
                                 then (case py_getitem word c of
                                         Inl e \<Rightarrow> Inl e
                                       | Inr correct_answer \<Rightarrow>
                                           compare_answer st (res\<lparr>country_res := Some c\<rparr>)
                                             correct_answer user_answer)
                                 else Inr (skip_answer st res))))))"

fun grade_loop :: "pydict list \<Rightarrow> tally \<Rightarrow> answer_data list \<Rightarrow> error + tally" where
  "grade_loop quiz_data st [] = Inr st"
| "grade_loop quiz_data st (answer_data # rest) =
     (case grade_answer quiz_data st answer_data of
        Inl e \<Rightarrow> Inl e
      | Inr st' \<Rightarrow> grade_loop quiz_data st' rest)"

definition grade :: "pydict list \<Rightarrow> answer_data list \<Rightarrow> error + tally" where
  "grade quiz_data answers = grade_loop quiz_data tally0 answers"

section \<open>The percentage: Python's float arithmetic\<close>

text \<open>
  \<open>round(correct_count / total_count * 100)\<close> divides two integers into a float,
  multiplies it by \<open>100.0\<close> and rounds the product to an integer. A finite binary64
  number is modelled by its sign, an integer mantissa \<open>m\<close> and an exponent \<open>e\<close>:
  \<open>Double s m e\<close> is \<open>m * 2 ^ e\<close>, negated when \<open>s\<close> holds. All three operations are
  correctly rounded in Python (ties go to the even neighbour), so each is the exact
  result followed by one rounding, and the rounding works on exact fractions of integers.
  The model has no infinities: it is the code's arithmetic as long as no result reaches
  \<open>2 ^ 1024\<close> in magnitude, and a percentage or an average of percentages stays
  far below that.
\<close>

datatype double = Double bool int int

text \<open>The integer nearest to \<open>n / d\<close> for \<open>n \<ge> 0\<close> and \<open>d > 0\<close>, ties to even.\<close>

definition round_half_even :: "int \<Rightarrow> int \<Rightarrow> int" where
  "round_half_even n d =
     (let q = n div d; r = n mod d
      in if 2 * r < d then q else if d < 2 * r then q + 1 else if even q then q else q + 1)"

function bit_length :: "int \<Rightarrow> nat" where
  "bit_length n = (if n \<le> 0 then 0 else Suc (bit_length (n div 2)))"
  by pat_completeness auto
termination
  by (relation "measure nat") auto

declare bit_length.simps [simp del]

text \<open>\<open>at_least_pow2 n d k\<close> says \<open>2 ^ k \<le> n / d\<close>, for any integer \<open>k\<close>.\<close>

definition at_least_pow2 :: "int \<Rightarrow> int \<Rightarrow> int \<Rightarrow> bool" where
  "at_least_pow2 n d k = (if 0 \<le> k then d * 2 ^ nat k \<le> n else d \<le> n * 2 ^ nat (- k))"

text \<open>The binary exponent of \<open>n / d\<close> for positive \<open>n\<close> and \<open>d\<close>.\<close>

definition floor_log2 :: "int \<Rightarrow> int \<Rightarrow> int" where
  "floor_log2 n d =
     (let k = int (bit_length n) - int (bit_length d)
      in if at_least_pow2 n d k then k else k - 1)"

text \<open>
  Rounding the fraction \<open>n / d\<close> (\<open>n \<ge> 0\<close>, \<open>d > 0\<close>) to binary64: a mantissa of 53 bits
  at the exponent of the fraction, and below \<open>2 ^ -1022\<close> the fixed exponent \<open>-1074\<close> of
  the subnormal numbers.
\<close>

definition to_double :: "bool \<Rightarrow> int \<Rightarrow> int \<Rightarrow> double" where
  "to_double sign n d =
     (if n = 0 then Double sign 0 0
      else let e = max (floor_log2 n d - 52) (- 1074)
           in if 0 \<le> e then Double sign (round_half_even n (d * 2 ^ nat e)) e
              else Double sign (round_half_even (n * 2 ^ nat (- e)) d) e)"

text \<open>\<open>a / b\<close> on integers, for \<open>b\<close> other than zero (both callers check that).\<close>

definition truediv :: "int \<Rightarrow> int \<Rightarrow> double" where
  "truediv a b = to_double ((a < 0) \<noteq> (b < 0)) \<bar>a\<bar> \<bar>b\<bar>"

definition double_of_int :: "int \<Rightarrow> double" where
  "double_of_int a = to_double (a < 0) \<bar>a\<bar> 1"

fun double_mult :: "double \<Rightarrow> double \<Rightarrow> double" where
  "double_mult (Double s1 m1 e1) (Double s2 m2 e2) =
     (if 0 \<le> e1 + e2 then to_double (s1 \<noteq> s2) (m1 * m2 * 2 ^ nat (e1 + e2)) 1
      else to_double (s1 \<noteq> s2) (m1 * m2) (2 ^ nat (- (e1 + e2))))"

text \<open>\<open>round(x)\<close> on a float: the nearest integer, ties to even.\<close>

fun py_round :: "double \<Rightarrow> int" where
  "py_round (Double s m e) =
     (let r = (if 0 \<le> e then m * 2 ^ nat e else round_half_even m (2 ^ nat (- e)))
      in if s then - r else r)"

fun is_zero :: "double \<Rightarrow> bool" where
  "is_zero (Double s m e) = (m = 0)"

definition percentage :: "int \<Rightarrow> int \<Rightarrow> int" where
  "percentage cc tc =
     (if tc > 0 then py_round (double_mult (truediv cc tc) (double_of_int 100)) else 0)"

section \<open>The attempt store\<close>

text \<open>
  The two tables of \<open>init_database\<close>. A column that shares its name with a field above
  carries the suffix \<open>_col\<close>, and the two \<open>id\<close> columns are \<open>attempt_rowid\<close> and
  \<open>answer_rowid\<close>. A stored row has a value in every \<open>NOT NULL\<close> column; \<open>country\<close> is
  the only column that may hold \<open>NULL\<close>. Each table has an \<open>AUTOINCREMENT\<close> key, for
  which SQLite keeps the largest key ever used in the table \<open>sqlite_sequence\<close>.
\<close>

record attempt_row =
  attempt_rowid :: int
  ip_address :: string
  timestamp :: string
  final_score :: int
  correct_count_col :: int
  total_count_col :: int

record answer_row =
  answer_rowid :: int
  attempt_id :: int
  word_index :: int
  is_level1 :: int
  country_col :: "string option"
  user_answer :: string
  correct_answer :: string
  is_correct :: int

record database =
  quiz_attempts :: "attempt_row list"
  quiz_answers :: "answer_row list"
  seq_attempts :: int
  seq_answers :: int

definition next_rowid :: "int \<Rightarrow> int list \<Rightarrow> int" where
  "next_rowid seq ids = fold max ids seq + 1"

text \<open>
  A connection of Python's \<open>sqlite3\<close> module in its default mode: the first \<open>INSERT\<close>
  opens a transaction, whose changes live in \<open>pending\<close> until \<open>commit\<close> writes them to
  the database; \<open>committed\<close> is the database as every other connection reads it. Closing
  a connection drops what is pending. A statement returns its outcome together with the
  connection, since an exception leaves the connection as the failed statement left it.
\<close>

record connection =
  committed :: database
  pending :: "database option"

definition get_db_connection :: "database \<Rightarrow> connection" where
  "get_db_connection db = \<lparr>committed = db, pending = None\<rparr>"

definition working :: "connection \<Rightarrow> database" where
  "working conn = (case pending conn of None \<Rightarrow> committed conn | Some w \<Rightarrow> w)"

definition commit :: "connection \<Rightarrow> connection" where
  "commit conn = \<lparr>committed = working conn, pending = None\<rparr>"

definition close :: "connection \<Rightarrow> database" where
  "close conn = committed conn"

text \<open>\<open>INSERT INTO quiz_attempts\<close>; the second component of a success is \<open>lastrowid\<close>.\<close>

definition insert_attempt ::
  "connection \<Rightarrow> string option \<Rightarrow> string \<Rightarrow> int \<Rightarrow> int \<Rightarrow> int \<Rightarrow> (error + int) \<times> connection" where
  "insert_attempt conn ip ts score cc tc =
     (let w = working conn
      in case ip of
           None \<Rightarrow> (Inl IntegrityError, conn\<lparr>pending := Some w\<rparr>)
         | Some a \<Rightarrow>
             (let rowid = next_rowid (seq_attempts w) (map attempt_rowid (quiz_attempts w));
                  row = \<lparr>attempt_rowid = rowid, ip_address = a, timestamp = ts,
                         final_score = score, correct_count_col = cc, total_count_col = tc\<rparr>
              in (Inr rowid,
                  conn\<lparr>pending := Some (w\<lparr>quiz_attempts := quiz_attempts w @ [row],
                                            seq_attempts := rowid\<rparr>)\<rparr>)))"

text \<open>
  The row that \<open>INSERT INTO quiz_answers\<close> writes for a result. The result of a skipped
  answer has no correct answer, and the column \<open>correct_answer\<close> is \<open>NOT NULL\<close>.
\<close>

definition answer_row_of :: "int \<Rightarrow> int \<Rightarrow> result \<Rightarrow> string \<Rightarrow> answer_row" where
  "answer_row_of rowid aid res spelling =
     \<lparr>answer_rowid = rowid, attempt_id = aid, word_index = wordIndex_res res,
      is_level1 = (if isLevel1_res res then 1 else 0), country_col = country_res res,
      user_answer = userAnswer res, correct_answer = spelling,
      is_correct = (if correct res then 1 else 0)\<rparr>"

definition insert_answer :: "connection \<Rightarrow> int \<Rightarrow> result \<Rightarrow> (error + unit) \<times> connection" where
  "insert_answer conn aid res =
     (let w = working conn
      in case correctAnswer res of
           None \<Rightarrow> (Inl IntegrityError, conn\<lparr>pending := Some w\<rparr>)
         | Some spelling \<Rightarrow>
             (let rowid = next_rowid (seq_answers w) (map answer_rowid (quiz_answers w))
              in (Inr (),
                  conn\<lparr>pending := Some (w\<lparr>quiz_answers :=
                                               quiz_answers w @ [answer_row_of rowid aid res spelling],
                                            seq_answers := rowid\<rparr>)\<rparr>)))"

fun insert_answers :: "connection \<Rightarrow> int \<Rightarrow> result list \<Rightarrow> (error + unit) \<times> connection" where
  "insert_answers conn aid [] = (Inr (), conn)"
| "insert_answers conn aid (res # rest) =
     (case insert_answer conn aid res of
        (Inl e, conn') \<Rightarrow> (Inl e, conn')
      | (Inr u, conn') \<Rightarrow> insert_answers conn' aid rest)"

text \<open>
  The block \<open>with closing(get_db_connection()) as conn\<close> of \<open>check_answers\<close>: the
  attempt, its answers, one \<open>commit\<close>; the connection is closed on every way out.
\<close>

definition save_attempt ::
  "database \<Rightarrow> string option \<Rightarrow> string \<Rightarrow> int \<Rightarrow> int \<Rightarrow> int \<Rightarrow> result list
     \<Rightarrow> (error + int) \<times> database" where
  "save_attempt db ip ts score cc tc rs =
     (case insert_attempt (get_db_connection db) ip ts score cc tc of
        (Inl e, conn) \<Rightarrow> (Inl e, close conn)
      | (Inr aid, conn) \<Rightarrow>
          (case insert_answers conn aid rs of
             (Inl e, conn') \<Rightarrow> (Inl e, close conn')
           | (Inr u, conn') \<Rightarrow> (Inr aid, close (commit conn'))))"

text \<open>
  \<open>get_statistics\<close> runs three queries on a connection of its own. \<open>AVG\<close> is \<open>NULL\<close> on
  an empty table and otherwise the sum of the scores divided by their number, as a
  float: SQLite adds the integer scores exactly, converts the sum and the count to floats
  and divides them, which is the one rounding of the exact quotient as long as the sum
  and the count are below \<open>2 ^ 53\<close>.
\<close>

record stats =
  total_attempts :: int
  average_score :: int
  perfect_scores :: int

definition avg_final_score :: "database \<Rightarrow> double option" where
  "avg_final_score db =
     (if quiz_attempts db = [] then None
      else Some (truediv (sum_list (map final_score (quiz_attempts db)))
                         (int (length (quiz_attempts db)))))"

definition get_statistics :: "database \<Rightarrow> stats" where
  "get_statistics db =
     \<lparr>total_attempts = int (length (quiz_attempts db)),
      average_score = (case avg_final_score db of
                         None \<Rightarrow> 0
                       | Some avg_result \<Rightarrow> if is_zero avg_result then 0 else py_round avg_result),
      perfect_scores = int (length (filter (\<lambda>r. final_score r = 100) (quiz_attempts db)))\<rparr>"

section \<open>The request handler\<close>

record request =
  quizData :: "pydict list option"
  answers :: "answer_data list option"
  remote_addr :: "string option"
  x_forwarded_for :: "string option"

record response =
  results_out :: "result list"
  score_correct :: int
  score_total :: int
  score_percentage :: int
  statistics :: stats

definition client_address :: "request \<Rightarrow> string option" where
  "client_address req =
     (case x_forwarded_for req of
        None \<Rightarrow> remote_addr req
      | Some h \<Rightarrow> if h = [] then remote_addr req
                  else Some (strip (takeWhile (\<lambda>c. c \<noteq> CHR '','') h)))"

text \<open>\<open>data.get("quizData", [])\<close> and \<open>data.get("answers", [])\<close>.\<close>

definition get_quizData :: "request \<Rightarrow> pydict list" where
  "get_quizData req = (case quizData req of None \<Rightarrow> [] | Some q \<Rightarrow> q)"

definition get_answers :: "request \<Rightarrow> answer_data list" where
  "get_answers req = (case answers req of None \<Rightarrow> [] | Some a \<Rightarrow> a)"

text \<open>
  \<open>check_answers\<close> on a database, at the time whose ISO text is \<open>now\<close>: the outcome of
  the request and the database that it leaves behind.
\<close>

definition check_answers :: "database \<Rightarrow> string \<Rightarrow> request \<Rightarrow> (error + response) \<times> database" where
  "check_answers db now req =
     (case grade (get_quizData req) (get_answers req) of
        Inl e \<Rightarrow> (Inl e, db)
      | Inr st \<Rightarrow>
          (let score = percentage (correct_count st) (total_count st)
           in case save_attempt db (client_address req) now score
                     (correct_count st) (total_count st) (results st) of
                (Inl e, db') \<Rightarrow> (Inl e, db')
              | (Inr aid, db') \<Rightarrow>
                  (Inr \<lparr>results_out = results st, score_correct = correct_count st,
                        score_total = total_count st, score_percentage = score,
                        statistics = get_statistics db'\<rparr>, db')))"

section \<open>Vocabulary of the statements and example data\<close>

text \<open>
  The condition \<open>country and country in word\<close> of the loop body, for the question
  \<open>word\<close> that the submission refers to.
\<close>

definition country_accepted :: "pydict \<Rightarrow> answer_data \<Rightarrow> bool" where
  "country_accepted word a = (case country a of None \<Rightarrow> False | Some c \<Rightarrow> c \<noteq> [] \<and> word c \<noteq> None)"

text \<open>
  The scenario of the specification: a quiz of a level-1 question and a level-2 question,
  as \<open>generate_quiz_data\<close> shapes them.
\<close>

definition example_quiz :: "pydict list" where
  "example_quiz =
     [[''us'' \<mapsto> JStr ''canceled'', ''ca'' \<mapsto> JStr ''cancelled'', ''gb'' \<mapsto> JStr ''cancelled'',
       ''au'' \<mapsto> JStr ''cancelled'', ''nz'' \<mapsto> JStr ''cancelled'', ''note'' \<mapsto> JStr [],
       ''level'' \<mapsto> JInt 1],
      [''us'' \<mapsto> JStr ''tire'', ''ca'' \<mapsto> JStr ''tire'', ''gb'' \<mapsto> JStr ''tyre'',
       ''au'' \<mapsto> JStr ''tyre'', ''nz'' \<mapsto> JStr ''tyre'', ''note'' \<mapsto> JStr [],
       ''level'' \<mapsto> JInt 2]]"

definition level1_answer :: "int \<Rightarrow> string \<Rightarrow> answer_data" where
  "level1_answer i s =
     \<lparr>wordIndex = Some i, isLevel1 = Some True, answer = Some s, country = None\<rparr>"

definition country_answer :: "int \<Rightarrow> string \<Rightarrow> string \<Rightarrow> answer_data" where
  "country_answer i c s =
     \<lparr>wordIndex = Some i, isLevel1 = Some False, answer = Some s, country = Some c\<rparr>"

definition no_country_answer :: "int \<Rightarrow> string \<Rightarrow> answer_data" where
  "no_country_answer i s =
     \<lparr>wordIndex = Some i, isLevel1 = Some False, answer = Some s, country = None\<rparr>"

definition example_answers :: "answer_data list" where
  "example_answers =
     [level1_answer 0 ''Cancelled '', country_answer 1 ''gb'' ''tyre'', no_country_answer 1 ''tire'']"

definition example_tally :: tally where
  "example_tally =
     \<lparr>results =
        [\<lparr>wordIndex_res = 0, isLevel1_res = True, correct = True,
          correctAnswer = Some ''cancelled'', userAnswer = ''Cancelled'', country_res = None\<rparr>,
         \<lparr>wordIndex_res = 1, isLevel1_res = False, correct = True,
          correctAnswer = Some ''tyre'', userAnswer = ''tyre'', country_res = Some ''gb''\<rparr>,
         \<lparr>wordIndex_res = 1, isLevel1_res = False, correct = False,
          correctAnswer = None, userAnswer = ''tire'', country_res = None\<rparr>],
      correct_count = 2, total_count = 2\<rparr>"

text \<open>The five country codes that the specification names.\<close>

definition known_countries :: "string list" where
  "known_countries = [''us'', ''ca'', ''gb'', ''au'', ''nz'']"

text \<open>
  A word whose spelling under \<open>ca\<close> has no surrounding whitespace and differs from the
  US spelling even when case and surrounding whitespace are ignored.
\<close>

definition distinct_spelling :: "pydict \<Rightarrow> bool" where
  "distinct_spelling w =
     (case w ''us'' of
        Some (JStr us) \<Rightarrow>
          (case w ''ca'' of
             Some (JStr ca) \<Rightarrow> strip ca = ca \<and> lower (strip us) \<noteq> lower ca
           | _ \<Rightarrow> False)
      | _ \<Rightarrow> False)"

text \<open>
  \<open>at_most x k\<close>: the float \<open>x\<close> is not negative, has an exponent that is not
  positive, and its value is at most the integer \<open>k\<close>.
\<close>

fun at_most :: "double \<Rightarrow> int \<Rightarrow> bool" where
  "at_most (Double s m e) k = (\<not> s \<and> 0 \<le> m \<and> e \<le> 0 \<and> m \<le> k * 2 ^ nat (- e))"

text \<open>
  Referential integrity of the store: every answer row belongs to an attempt row.
\<close>

definition consistent :: "database \<Rightarrow> bool" where
  "consistent db = (\<forall>a \<in> set (quiz_answers db). \<exists>t \<in> set (quiz_attempts db). attempt_rowid t = attempt_id a)"

definition empty_database :: database where
  "empty_database = \<lparr>quiz_attempts = [], quiz_answers = [], seq_attempts = 0, seq_answers = 0\<rparr>"

text \<open>
  Requests for the example quiz: the two answers of the specification's scenario, and a
  level-1 answer without the key \<open>answer\<close> followed by a well-formed answer.
\<close>

definition example_request :: request where
  "example_request =
     \<lparr>quizData = Some example_quiz,
      answers = Some [level1_answer 0 ''Cancelled '', country_answer 1 ''gb'' ''tyre''],
      remote_addr = Some ''127.0.0.1'', x_forwarded_for = None\<rparr>"

definition example_saved :: database where
  "example_saved =
     \<lparr>quiz_attempts =
        [\<lparr>attempt_rowid = 1, ip_address = ''127.0.0.1'', timestamp = ''2024-05-01T12:00:00'',
          final_score = 100, correct_count_col = 2, total_count_col = 2\<rparr>],
      quiz_answers =
        [\<lparr>answer_rowid = 1, attempt_id = 1, word_index = 0, is_level1 = 1, country_col = None,
          user_answer = ''Cancelled'', correct_answer = ''cancelled'', is_correct = 1\<rparr>,
         \<lparr>answer_rowid = 2, attempt_id = 1, word_index = 1, is_level1 = 0,
          country_col = Some ''gb'', user_answer = ''tyre'', correct_answer = ''tyre'',
          is_correct = 1\<rparr>],
      seq_attempts = 1, seq_answers = 2\<rparr>"

definition example_response :: response where
  "example_response =
     \<lparr>results_out =
        [\<lparr>wordIndex_res = 0, isLevel1_res = True, correct = True,
          correctAnswer = Some ''cancelled'', userAnswer = ''Cancelled'', country_res = None\<rparr>,
         \<lparr>wordIndex_res = 1, isLevel1_res = False, correct = True,
          correctAnswer = Some ''tyre'', userAnswer = ''tyre'', country_res = Some ''gb''\<rparr>],
      score_correct = 2, score_total = 2, score_percentage = 100,
      statistics = \<lparr>total_attempts = 1, average_score = 100, perfect_scores = 1\<rparr>\<rparr>"

definition missing_answer :: answer_data where
  "missing_answer = \<lparr>wordIndex = Some 0, isLevel1 = Some True, answer = None, country = None\<rparr>"

definition missing_answer_request :: request where
  "missing_answer_request =
     \<lparr>quizData = Some example_quiz,
      answers = Some [missing_answer, country_answer 1 ''gb'' ''tyre''],
      remote_addr = Some ''127.0.0.1'', x_forwarded_for = None\<rparr>"

text \<open>What the request with the missing answer returns and stores after the first one.\<close>

definition missing_answer_response :: response where
  "missing_answer_response =
     \<lparr>results_out =
        [\<lparr>wordIndex_res = 0, isLevel1_res = True, correct = False,
          correctAnswer = Some ''cancelled'', userAnswer = [], country_res = None\<rparr>,
         \<lparr>wordIndex_res = 1, isLevel1_res = False, correct = True,
          correctAnswer = Some ''tyre'', userAnswer = ''tyre'', country_res = Some ''gb''\<rparr>],
      score_correct = 1, score_total = 2, score_percentage = 50,
      statistics = \<lparr>total_attempts = 2, average_score = 75, perfect_scores = 1\<rparr>\<rparr>"

definition missing_answer_saved :: database where
  "missing_answer_saved =
     \<lparr>quiz_attempts =
        [\<lparr>attempt_rowid = 1, ip_address = ''127.0.0.1'', timestamp = ''2024-05-01T12:00:00'',
          final_score = 100, correct_count_col = 2, total_count_col = 2\<rparr>,
         \<lparr>attempt_rowid = 2, ip_address = ''127.0.0.1'', timestamp = ''2024-05-01T12:05:00'',
          final_score = 50, correct_count_col = 1, total_count_col = 2\<rparr>],
      quiz_answers =
        [\<lparr>answer_rowid = 1, attempt_id = 1, word_index = 0, is_level1 = 1, country_col = None,
          user_answer = ''Cancelled'', correct_answer = ''cancelled'', is_correct = 1\<rparr>,
         \<lparr>answer_rowid = 2, attempt_id = 1, word_index = 1, is_level1 = 0,
          country_col = Some ''gb'', user_answer = ''tyre'', correct_answer = ''tyre'',
          is_correct = 1\<rparr>,
         \<lparr>answer_rowid = 3, attempt_id = 2, word_index = 0, is_level1 = 1, country_col = None,
          user_answer = [], correct_answer = ''cancelled'', is_correct = 0\<rparr>,
         \<lparr>answer_rowid = 4, attempt_id = 2, word_index = 1, is_level1 = 0,
          country_col = Some ''gb'', user_answer = ''tyre'', correct_answer = ''tyre'',
          is_correct = 1\<rparr>],
      seq_attempts = 2, seq_answers = 4\<rparr>"

text \<open>
  Requests with a well-formed answer followed by one without the key \<open>wordIndex\<close>, and
  by one whose word index is beyond the two questions.
\<close>

definition missing_index_request :: request where
  "missing_index_request =
     \<lparr>quizData = Some example_quiz,
      answers = Some [level1_answer 0 ''cancelled'',
                      \<lparr>wordIndex = None, isLevel1 = Some True, answer = Some ''cancelled'',
                       country = None\<rparr>],
      remote_addr = Some ''127.0.0.1'', x_forwarded_for = None\<rparr>"

definition index_out_of_range_request :: request where
  "index_out_of_range_request =
     \<lparr>quizData = Some example_quiz,
      answers = Some [level1_answer 0 ''cancelled'', level1_answer 2 ''cancelled''],
      remote_addr = Some ''127.0.0.1'', x_forwarded_for = None\<rparr>"

text \<open>
  \<open>at_least x k\<close>: the float \<open>x\<close> is not negative, has an exponent that is not
  positive, and its value is at least the integer \<open>k\<close>.
\<close>

fun at_least :: "double \<Rightarrow> int \<Rightarrow> bool" where
  "at_least (Double s m e) k = (\<not> s \<and> e \<le> 0 \<and> k * 2 ^ nat (- e) \<le> m)"

text \<open>
  A request whose third answer is not of level 1 and names no country.
\<close>

definition skipped_request :: request where
  "skipped_request =
     \<lparr>quizData = Some example_quiz, answers = Some example_answers,
      remote_addr = Some ''127.0.0.1'', x_forwarded_for = None\<rparr>"

section \<open>The catalog invariant\<close>

lemma WORD_GROUPS_length: "length WORD_GROUPS = 8"
  by (simp add: WORD_GROUPS_def)

text \<open>
  Claim C9. Every word of every group of the catalog has a non-empty spelling under each of
  the five country keys, and in every group of level 1 the spellings under ca, gb, au and
  nz of each word are the same.
\<close>

theorem catalog_invariant:
  "\<forall>g \<in> set WORD_GROUPS. \<forall>w \<in> set (words g).
     populated w \<and> (level g = 1 \<longrightarrow> same_outside_us w)"
  by (simp add: WORD_GROUPS_def populated_def same_outside_us_def)

theorem catalog_invariant_witness:
  "WORD_GROUPS ! 0 \<in> set WORD_GROUPS \<and> words (WORD_GROUPS ! 0) ! 1 \<in> set (words (WORD_GROUPS ! 0)) \<and>
   level (WORD_GROUPS ! 0) = 1 \<and>
   populated (words (WORD_GROUPS ! 0) ! 1) \<and> same_outside_us (words (WORD_GROUPS ! 0) ! 1) \<and>
   (words (WORD_GROUPS ! 0) ! 1) ''gb'' = Some (JStr ''travelled'')"
proof -
  have g: "WORD_GROUPS ! 0 \<in> set WORD_GROUPS"
    by (simp add: WORD_GROUPS_def)
  have w: "words (WORD_GROUPS ! 0) ! 1 \<in> set (words (WORD_GROUPS ! 0))"
    by (simp add: WORD_GROUPS_def)
  have l: "level (WORD_GROUPS ! 0) = 1"
    by (simp add: WORD_GROUPS_def)
  have v: "(words (WORD_GROUPS ! 0) ! 1) ''gb'' = Some (JStr ''travelled'')"
    by (simp add: WORD_GROUPS_def)
  from catalog_invariant g w l v show ?thesis by blast
qed

section \<open>The quiz generator returns one question per group\<close>

lemma catalog_words_nonempty: "\<forall>g \<in> set WORD_GROUPS. words g \<noteq> []"
  by (simp add: WORD_GROUPS_def)

lemma catalog_words_populated: "\<forall>g \<in> set WORD_GROUPS. \<forall>w \<in> set (words g). populated w"
  by (simp add: WORD_GROUPS_def populated_def)

lemma py_index_in_range:
  assumes "0 \<le> i" "i < int (length xs)"
  shows "py_index xs i = Inr (xs ! nat i)"
  using assms by (simp add: py_index_def)

lemma select_words_loop_ok:
  assumes "randint_ok rnd" "\<forall>g \<in> set gs. words g \<noteq> []"
  shows "\<exists>ws. select_words_loop rnd k gs = Inr ws \<and> length ws = length gs \<and>
           (\<forall>i < length gs. \<exists>w \<in> set (words (gs ! i)).
              ws ! i = w(''groupIndex'' \<mapsto> JInt (int (k + i)), ''level'' \<mapsto> JInt (level (gs ! i))))"
  using assms(2)
proof (induction gs arbitrary: k)
  case Nil
  then show ?case by simp
next
  case (Cons g gs)
  let ?n = "int (length (words g))"
  let ?r = "rnd k 0 (?n - 1)"
  from Cons.prems have ne: "words g \<noteq> []" by simp
  then have le: "(0::int) \<le> ?n - 1" by (cases "words g") simp_all
  with assms(1) have r: "0 \<le> ?r" "?r \<le> ?n - 1"
    unfolding randint_ok_def by blast+
  have ri: "randint rnd k 0 (?n - 1) = Inr ?r"
    using le by (simp add: randint_def)
  have ix: "py_index (words g) ?r = Inr (words g ! nat ?r)"
    using r by (intro py_index_in_range) simp_all
  have mem: "words g ! nat ?r \<in> set (words g)"
    using r by (intro nth_mem) simp
  from Cons.prems have "\<forall>g \<in> set gs. words g \<noteq> []" by simp
  from Cons.IH [OF this, of "Suc k"] obtain ws where
    ws: "select_words_loop rnd (Suc k) gs = Inr ws" "length ws = length gs"
      "\<forall>i < length gs. \<exists>w \<in> set (words (gs ! i)).
         ws ! i = w(''groupIndex'' \<mapsto> JInt (int (Suc k + i)), ''level'' \<mapsto> JInt (level (gs ! i)))"
    by blast
  let ?w = "(words g ! nat ?r)(''groupIndex'' \<mapsto> JInt (int k), ''level'' \<mapsto> JInt (level g))"
  have res: "select_words_loop rnd k (g # gs) = Inr (?w # ws)"
    by (simp add: ri ix ws(1))
  have all: "\<exists>w \<in> set (words ((g # gs) ! i)).
       (?w # ws) ! i = w(''groupIndex'' \<mapsto> JInt (int (k + i)), ''level'' \<mapsto> JInt (level ((g # gs) ! i)))"
    if "i < length (g # gs)" for i
  proof (cases i)
    case 0
    with mem show ?thesis by auto
  next
    case (Suc j)
    with that have "j < length gs" by simp
    with ws(3) Suc show ?thesis by simp
  qed
  have len: "length (?w # ws) = length (g # gs)"
    using ws(2) by simp
  from res len all show ?case by blast
qed

lemma quiz_entry_ok:
  assumes "populated w"
  shows "\<exists>q. quiz_entry (w(''groupIndex'' \<mapsto> JInt gi, ''level'' \<mapsto> JInt (level g))) = Inr q \<and>
           question_of g w q"
proof -
  from assms obtain us ca gb au nz where k:
    "w ''us'' = Some (JStr us)" "w ''ca'' = Some (JStr ca)" "w ''gb'' = Some (JStr gb)"
    "w ''au'' = Some (JStr au)" "w ''nz'' = Some (JStr nz)"
    by (auto simp: populated_def split: option.splits jval.splits)
  show ?thesis
    by (auto simp: quiz_entry_def py_getitem_def question_of_def k)
qed

lemma quiz_entries_ok:
  assumes "\<forall>w \<in> set ws. \<exists>q. quiz_entry w = Inr q"
  shows "\<exists>qs. quiz_entries ws = Inr qs \<and> length qs = length ws \<and>
           (\<forall>i < length ws. quiz_entry (ws ! i) = Inr (qs ! i))"
  using assms
proof (induction ws)
  case Nil
  then show ?case by simp
next
  case (Cons w ws)
  then obtain q where q: "quiz_entry w = Inr q" by auto
  from Cons obtain qs where qs: "quiz_entries ws = Inr qs" "length qs = length ws"
    "\<forall>i < length ws. quiz_entry (ws ! i) = Inr (qs ! i)" by auto
  have "quiz_entry ((w # ws) ! i) = Inr ((q # qs) ! i)" if "i < length (w # ws)" for i
    using that q qs(3) by (cases i) simp_all
  with q qs show ?case by simp
qed

text \<open>
  Claim C5. With a random number generator that keeps within its bounds, the generator
  returns one question for each group of the catalog, in catalog order: the question at
  position \<open>i\<close> is built from a word of the group at position \<open>i\<close>, carries that
  group's level, and has exactly the keys us, ca, gb, au, nz, note and level. The position
  is the index: the word selected for position \<open>i\<close> has \<open>groupIndex\<close> \<open>i\<close>.
\<close>

theorem generate_quiz_one_per_group:
  assumes "randint_ok rnd"
  shows "\<exists>ws qs. select_words rnd = Inr ws \<and> generate_quiz_data rnd = Inr qs \<and>
           length ws = length WORD_GROUPS \<and> length qs = length WORD_GROUPS \<and>
           (\<forall>i < length WORD_GROUPS.
              (ws ! i) ''groupIndex'' = Some (JInt (int i)) \<and>
              (\<exists>w \<in> set (words (WORD_GROUPS ! i)). question_of (WORD_GROUPS ! i) w (qs ! i)))"
proof -
  from select_words_loop_ok [OF assms catalog_words_nonempty, of 0] obtain ws where
    ws: "select_words rnd = Inr ws" "length ws = length WORD_GROUPS"
      "\<forall>i < length WORD_GROUPS. \<exists>w \<in> set (words (WORD_GROUPS ! i)).
         ws ! i = w(''groupIndex'' \<mapsto> JInt (int i), ''level'' \<mapsto> JInt (level (WORD_GROUPS ! i)))"
    unfolding select_words_def by auto
  have each: "\<exists>w \<in> set (words (WORD_GROUPS ! i)). \<exists>q.
        (ws ! i) ''groupIndex'' = Some (JInt (int i)) \<and> quiz_entry (ws ! i) = Inr q \<and>
        question_of (WORD_GROUPS ! i) w q"
    if "i < length WORD_GROUPS" for i
  proof -
    from ws(3) that obtain w where w: "w \<in> set (words (WORD_GROUPS ! i))"
      "ws ! i = w(''groupIndex'' \<mapsto> JInt (int i), ''level'' \<mapsto> JInt (level (WORD_GROUPS ! i)))"
      by blast
    from that have "WORD_GROUPS ! i \<in> set WORD_GROUPS" by simp
    with w(1) catalog_words_populated have "populated w" by blast
    from quiz_entry_ok [OF this, of "int i" "WORD_GROUPS ! i"] w show ?thesis
      by auto
  qed
  have "\<forall>w \<in> set ws. \<exists>q. quiz_entry w = Inr q"
  proof
    fix w assume "w \<in> set ws"
    then obtain i where "i < length ws" "w = ws ! i" by (auto simp: in_set_conv_nth)
    with each [of i] ws(2) show "\<exists>q. quiz_entry w = Inr q" by auto
  qed
  from quiz_entries_ok [OF this] obtain qs where
    qs: "quiz_entries ws = Inr qs" "length qs = length ws"
      "\<forall>i < length ws. quiz_entry (ws ! i) = Inr (qs ! i)" by blast
  have "generate_quiz_data rnd = Inr qs"
    by (simp add: generate_quiz_data_def ws(1) qs(1))
  moreover have "(ws ! i) ''groupIndex'' = Some (JInt (int i)) \<and>
     (\<exists>w \<in> set (words (WORD_GROUPS ! i)). question_of (WORD_GROUPS ! i) w (qs ! i))"
    if "i < length WORD_GROUPS" for i
    using each [OF that] qs(3) that ws(2) by auto
  ultimately show ?thesis using ws(1,2) qs(2) by auto
qed

theorem generate_quiz_one_per_group_witness:
  "randint_ok (\<lambda>k a b. a) \<and>
   (\<exists>ws qs. select_words (\<lambda>k a b. a) = Inr ws \<and> generate_quiz_data (\<lambda>k a b. a) = Inr qs \<and>
      length ws = 8 \<and> length qs = 8 \<and>
      (ws ! 4) ''groupIndex'' = Some (JInt 4) \<and>
      (\<exists>w \<in> set (words (WORD_GROUPS ! 4)). question_of (WORD_GROUPS ! 4) w (qs ! 4)))"
proof -
  have ok: "randint_ok (\<lambda>k a b. a)"
    by (simp add: randint_ok_def)
  from generate_quiz_one_per_group [OF ok] obtain ws qs where
    r: "select_words (\<lambda>k a b. a) = Inr ws" "generate_quiz_data (\<lambda>k a b. a) = Inr qs"
      "length ws = length WORD_GROUPS" "length qs = length WORD_GROUPS"
      "\<forall>i < length WORD_GROUPS.
         (ws ! i) ''groupIndex'' = Some (JInt (int i)) \<and>
         (\<exists>w \<in> set (words (WORD_GROUPS ! i)). question_of (WORD_GROUPS ! i) w (qs ! i))"
    by blast
  have "(4::nat) < length WORD_GROUPS"
    by (simp add: WORD_GROUPS_length)
  with r(5) have "(ws ! 4) ''groupIndex'' = Some (JInt (int 4)) \<and>
      (\<exists>w \<in> set (words (WORD_GROUPS ! 4)). question_of (WORD_GROUPS ! 4) w (qs ! 4))"
    by blast
  with ok r(1-4) show ?thesis
    by (simp add: WORD_GROUPS_length)
qed

section \<open>Trimming and lower-casing\<close>

lemma of_char_lower_char:
  "isupper c \<Longrightarrow> (of_char (lower_char c) :: nat) = of_char c + 32"
  by (auto simp: lower_char_def isupper_def Let_def of_char_of)

lemma isspace_lower_char [simp]: "isspace (lower_char c) = isspace c"
proof (cases "isupper c")
  case True
  from of_char_lower_char [OF True] True show ?thesis
    by (auto simp: isspace_def isupper_def Let_def)
next
  case False
  then show ?thesis by (simp add: lower_char_def)
qed




section \<open>One iteration of the grading loop\<close>

lemma compare_answer_Inr:
  assumes "compare_answer st res v ua = Inr st'"
  shows "\<exists>sp. v = JStr sp \<and>
           results st' = results st @
             [if ua = lower sp then res\<lparr>correctAnswer := Some sp, correct := True\<rparr>
              else res\<lparr>correctAnswer := Some sp\<rparr>] \<and>
           total_count st' = total_count st + 1 \<and>
           correct_count st' = correct_count st + (if ua = lower sp then 1 else 0)"
proof (cases v)
  case (JStr sp)
  with assms show ?thesis
    by (cases "ua = lower sp") (auto simp: compare_answer_def)
next
  case (JInt n)
  with assms show ?thesis by (simp add: compare_answer_def)
qed

lemma grade_answer_unfold:
  assumes "wordIndex a = Some idx" "py_index qd idx = Inr word"
  shows "grade_answer qd st a =
     (if get_isLevel1 a
      then (case word ''ca'' of
              None \<Rightarrow> Inl KeyError
            | Some v \<Rightarrow> compare_answer st (new_result idx a) v (lower (strip (get_answer a))))
      else (case country a of
              None \<Rightarrow> Inr (skip_answer st (new_result idx a))
            | Some c \<Rightarrow>
                (if c \<noteq> [] \<and> word c \<noteq> None
                 then compare_answer st ((new_result idx a)\<lparr>country_res := Some c\<rparr>) (the (word c))
                        (lower (strip (get_answer a)))
                 else Inr (skip_answer st (new_result idx a)))))"
  using assms
  by (simp add: grade_answer_def Let_def py_getitem_def split: option.splits)

lemma grade_answer_Inr_index:
  assumes "grade_answer qd st a = Inr st'"
  shows "\<exists>idx word. wordIndex a = Some idx \<and> py_index qd idx = Inr word"
proof (cases "wordIndex a")
  case None
  with assms show ?thesis by (simp add: grade_answer_def)
next
  case (Some idx)
  show ?thesis
  proof (cases "py_index qd idx")
    case (Inl e)
    with assms Some show ?thesis by (simp add: grade_answer_def Let_def)
  next
    case (Inr word)
    with Some show ?thesis by simp
  qed
qed

lemma grade_answer_cases:
  assumes "grade_answer qd st a = Inr st'"
  obtains (level1) idx word sp where
      "wordIndex a = Some idx" "py_index qd idx = Inr word" "get_isLevel1 a"
      "word ''ca'' = Some (JStr sp)"
      "compare_answer st (new_result idx a) (JStr sp) (lower (strip (get_answer a))) = Inr st'"
  | (by_country) idx word c sp where
      "wordIndex a = Some idx" "py_index qd idx = Inr word" "\<not> get_isLevel1 a"
      "country a = Some c" "c \<noteq> []" "word c = Some (JStr sp)"
      "compare_answer st ((new_result idx a)\<lparr>country_res := Some c\<rparr>) (JStr sp)
         (lower (strip (get_answer a))) = Inr st'"
  | (skipped) idx word where
      "wordIndex a = Some idx" "py_index qd idx = Inr word" "\<not> get_isLevel1 a"
      "country a = None \<or> country a = Some [] \<or> (\<exists>c. country a = Some c \<and> word c = None)"
      "st' = skip_answer st (new_result idx a)"
proof -
  from grade_answer_Inr_index [OF assms] obtain idx word where
    iw: "wordIndex a = Some idx" "py_index qd idx = Inr word" by blast
  note u = grade_answer_unfold [OF iw, of st]
  show thesis
  proof (cases "get_isLevel1 a")
    case True
    with assms u obtain v where v: "word ''ca'' = Some v"
        "compare_answer st (new_result idx a) v (lower (strip (get_answer a))) = Inr st'"
      by (cases "word ''ca''") simp_all
    from compare_answer_Inr [OF v(2)] obtain sp where sp: "v = JStr sp" by blast
    from iw True v show thesis unfolding sp by (rule level1)
  next
    case False
    show thesis
    proof (cases "country a")
      case None
      with assms u False have "st' = skip_answer st (new_result idx a)" by simp
      with iw False None show thesis by (intro skipped [of idx word]) simp_all
    next
      case (Some c)
      show thesis
      proof (cases "c \<noteq> [] \<and> word c \<noteq> None")
        case True
        then obtain v where v: "word c = Some v" by auto
        with assms u False Some True
        have cmp: "compare_answer st ((new_result idx a)\<lparr>country_res := Some c\<rparr>) v
                   (lower (strip (get_answer a))) = Inr st'"
          by simp
        from compare_answer_Inr [OF cmp] obtain sp where sp: "v = JStr sp" by blast
        from True have ne: "c \<noteq> []" by simp
        from iw False Some ne v cmp show thesis unfolding sp by (rule by_country)
      next
        case nc: False
        with assms u False Some have st': "st' = skip_answer st (new_result idx a)" by auto
        from nc Some have "country a = None \<or> country a = Some [] \<or>
            (\<exists>c. country a = Some c \<and> word c = None)" by auto
        with iw False st' show thesis by (intro skipped [of idx word]) simp_all
      qed
    qed
  qed
qed

lemma grade_answer_step:
  assumes "grade_answer qd st a = Inr st'"
  shows "\<exists>r. results st' = results st @ [r] \<and>
             wordIndex a = Some (wordIndex_res r) \<and>
             isLevel1_res r = get_isLevel1 a \<and>
             userAnswer r = strip (get_answer a) \<and>
             total_count st' = total_count st + (if correctAnswer r = None then 0 else 1) \<and>
             correct_count st' = correct_count st + (if correct r then 1 else 0) \<and>
             (correct r \<longrightarrow> correctAnswer r \<noteq> None)"
  using assms
proof (cases rule: grade_answer_cases)
  case (level1 idx word sp)
  from compare_answer_Inr [OF level1(5)] level1(1) show ?thesis
    by (cases "lower (strip (get_answer a)) = lower sp") (simp_all add: new_result_def)
next
  case (by_country idx word c sp)
  from compare_answer_Inr [OF by_country(7)] by_country(1) show ?thesis
    by (cases "lower (strip (get_answer a)) = lower sp") (simp_all add: new_result_def)
next
  case (skipped idx word)
  then show ?thesis by (simp add: new_result_def skip_answer_def)
qed

section \<open>The grading loop\<close>

lemma grade_loop_append:
  "grade_loop qd st (xs @ ys) =
     (case grade_loop qd st xs of Inl e \<Rightarrow> Inl e | Inr s \<Rightarrow> grade_loop qd s ys)"
  by (induction xs arbitrary: st) (auto split: sum.splits)

lemma grade_loop_results:
  assumes "grade_loop qd st xs = Inr st'"
  shows "\<exists>rs. results st' = results st @ rs \<and> length rs = length xs \<and>
           correct_count st \<le> correct_count st' \<and>
           correct_count st' - correct_count st \<le> total_count st' - total_count st \<and>
           total_count st' - total_count st \<le> int (length xs)"
  using assms
proof (induction xs arbitrary: st)
  case Nil
  then show ?case by simp
next
  case (Cons a xs)
  then obtain s where s: "grade_answer qd st a = Inr s" "grade_loop qd s xs = Inr st'"
    by (auto split: sum.splits)
  from grade_answer_step [OF s(1)] obtain r where
    r: "results s = results st @ [r]"
       "total_count s = total_count st + (if correctAnswer r = None then 0 else 1)"
       "correct_count s = correct_count st + (if correct r then 1 else 0)"
       "correct r \<longrightarrow> correctAnswer r \<noteq> None"
    by blast
  from Cons.IH [OF s(2)] obtain rs where
    rs: "results st' = results s @ rs" "length rs = length xs"
        "correct_count s \<le> correct_count st'"
        "correct_count st' - correct_count s \<le> total_count st' - total_count s"
        "total_count st' - total_count s \<le> int (length xs)"
    by blast
  have "results st' = results st @ (r # rs)" using r(1) rs(1) by simp
  moreover have "length (r # rs) = length (a # xs)" using rs(2) by simp
  moreover have "correct_count st \<le> correct_count st'" using r(3) rs(3) by (simp split: if_splits)
  moreover have "correct_count st' - correct_count st \<le> total_count st' - total_count st"
    using r(2,3,4) rs(4) by (auto split: if_splits)
  moreover have "total_count st' - total_count st \<le> int (length (a # xs))"
    using r(2) rs(5) by (simp split: if_splits)
  ultimately show ?case by blast
qed

lemma grade_loop_take:
  assumes "grade_loop qd st xs = Inr st'"
  shows "\<exists>s. grade_loop qd st (take k xs) = Inr s \<and> grade_loop qd s (drop k xs) = Inr st'"
proof -
  have "grade_loop qd st (take k xs @ drop k xs) = Inr st'" using assms by simp
  then show ?thesis unfolding grade_loop_append by (auto split: sum.splits)
qed

lemma grade_loop_nth:
  assumes "grade_loop qd st xs = Inr st'" "i < length xs"
  shows "\<exists>s s'. grade_loop qd st (take i xs) = Inr s \<and> grade_answer qd s (xs ! i) = Inr s' \<and>
           results s' = results s @ [results st' ! (length (results st) + i)] \<and>
           length (results s) = length (results st) + i"
proof -
  from grade_loop_take [OF assms(1), of i] obtain s where
    s: "grade_loop qd st (take i xs) = Inr s" "grade_loop qd s (drop i xs) = Inr st'" by blast
  from assms(2) have d: "drop i xs = xs ! i # drop (Suc i) xs"
    by (simp add: Cons_nth_drop_Suc)
  from s(2) obtain s' where s': "grade_answer qd s (xs ! i) = Inr s'"
      "grade_loop qd s' (drop (Suc i) xs) = Inr st'"
    unfolding d by (auto split: sum.splits)
  from grade_answer_step [OF s'(1)] obtain r where r: "results s' = results s @ [r]" by blast
  from grade_loop_results [OF s(1)] obtain rs where
    rs: "results s = results st @ rs" "length rs = length (take i xs)" by blast
  from grade_loop_results [OF s'(2)] obtain rs' where
    rs': "results st' = results s' @ rs'" by blast
  have len: "length (results s) = length (results st) + i"
    using rs assms(2) by simp
  have "results st' = results s @ r # rs'" using rs' r by simp
  then have "results st' ! (length (results st) + i) = r"
    using len by (metis nth_append_length)
  with s(1) s'(1) r len show ?thesis by blast
qed

lemma grade_answer_skipped:
  assumes "wordIndex a = Some idx" "py_index qd idx = Inr word" "\<not> get_isLevel1 a"
    "\<not> country_accepted word a"
  shows "grade_answer qd st a = Inr (skip_answer st (new_result idx a))"
  using assms(3,4) unfolding grade_answer_unfold [OF assms(1,2)] country_accepted_def
  by (auto split: option.splits)

lemma grade_prefix:
  assumes "grade qd xs = Inr st" "k \<le> length xs"
  shows "\<exists>s. grade qd (take k xs) = Inr s \<and> results s = take k (results st) \<and>
           0 \<le> correct_count s \<and> correct_count s \<le> total_count s \<and> total_count s \<le> int k"
proof -
  from assms(1) have g: "grade_loop qd tally0 xs = Inr st" by (simp add: grade_def)
  from grade_loop_take [OF g, of k] obtain s where
    s: "grade_loop qd tally0 (take k xs) = Inr s" "grade_loop qd s (drop k xs) = Inr st" by blast
  from grade_loop_results [OF s(1)] assms(2) obtain rs where
    rs: "results s = rs" "length rs = k" "0 \<le> correct_count s"
      "correct_count s \<le> total_count s" "total_count s \<le> int k"
    by (auto simp: tally0_def)
  from grade_loop_results [OF s(2)] obtain rs' where "results st = results s @ rs'" by blast
  with rs(1,2) have "results s = take k (results st)" by simp
  with s(1) rs(3-5) show ?thesis by (simp add: grade_def)
qed

text \<open>
  Claim C10. When the grading loop completes, there is one result for each submission,
  in the order of the submissions: the result at position \<open>i\<close> carries the word index,
  the level-1 flag and the trimmed answer of submission \<open>i\<close>, and when that submission
  is not of level 1 and has no accepted country, the result is not correct and has no
  correct answer. After every number \<open>k\<close> of iterations the loop has produced the first
  \<open>k\<close> results, and its counters satisfy
  \<open>0 \<le> correct_count \<le> total_count \<le> k\<close>.
\<close>

theorem grade_results_and_counters:
  assumes "grade quiz_data submitted = Inr st"
  shows "length (results st) = length submitted \<and>
    (\<forall>i < length submitted.
       wordIndex (submitted ! i) = Some (wordIndex_res (results st ! i)) \<and>
       isLevel1_res (results st ! i) = get_isLevel1 (submitted ! i) \<and>
       userAnswer (results st ! i) = strip (get_answer (submitted ! i)) \<and>
       (\<forall>word. py_index quiz_data (wordIndex_res (results st ! i)) = Inr word \<longrightarrow>
           \<not> get_isLevel1 (submitted ! i) \<longrightarrow> \<not> country_accepted word (submitted ! i) \<longrightarrow>
           \<not> correct (results st ! i) \<and> correctAnswer (results st ! i) = None)) \<and>
    (\<forall>k \<le> length submitted. \<exists>s.
       grade quiz_data (take k submitted) = Inr s \<and> results s = take k (results st) \<and>
       0 \<le> correct_count s \<and> correct_count s \<le> total_count s \<and> total_count s \<le> int k)"
proof (intro conjI allI impI)
  from assms have g: "grade_loop quiz_data tally0 submitted = Inr st" by (simp add: grade_def)
  from grade_loop_results [OF g] show "length (results st) = length submitted"
    by (auto simp: tally0_def)
next
  fix i assume i: "i < length submitted"
  from assms have g: "grade_loop quiz_data tally0 submitted = Inr st" by (simp add: grade_def)
  from grade_loop_nth [OF g i] obtain s s' where
    s: "grade_answer quiz_data s (submitted ! i) = Inr s'"
       "results s' = results s @ [results st ! i]"
    by (auto simp: tally0_def)
  from grade_answer_step [OF s(1)] s(2)
  have r: "wordIndex (submitted ! i) = Some (wordIndex_res (results st ! i))"
       "isLevel1_res (results st ! i) = get_isLevel1 (submitted ! i)"
       "userAnswer (results st ! i) = strip (get_answer (submitted ! i))"
    by auto
  show "wordIndex (submitted ! i) = Some (wordIndex_res (results st ! i))" by (rule r(1))
  show "isLevel1_res (results st ! i) = get_isLevel1 (submitted ! i)" by (rule r(2))
  show "userAnswer (results st ! i) = strip (get_answer (submitted ! i))" by (rule r(3))
  fix word
  assume w: "py_index quiz_data (wordIndex_res (results st ! i)) = Inr word"
    and l: "\<not> get_isLevel1 (submitted ! i)"
    and c: "\<not> country_accepted word (submitted ! i)"
  from grade_answer_skipped [OF r(1) w l c, of s] s
  have "results st ! i = new_result (wordIndex_res (results st ! i)) (submitted ! i)"
    by (simp add: skip_answer_def)
  then have "correct (results st ! i) = False \<and> correctAnswer (results st ! i) = None"
    by (metis new_result_def result.select_convs(3,4))
  then show "\<not> correct (results st ! i)" "correctAnswer (results st ! i) = None" by simp_all
next
  fix k assume "k \<le> length submitted"
  from grade_prefix [OF assms this]
  show "\<exists>s. grade quiz_data (take k submitted) = Inr s \<and> results s = take k (results st) \<and>
       0 \<le> correct_count s \<and> correct_count s \<le> total_count s \<and> total_count s \<le> int k" .
qed

lemma example_grade: "grade example_quiz example_answers = Inr example_tally"
  unfolding example_tally_def by code_simp

theorem grade_results_and_counters_witness:
  "grade example_quiz example_answers = Inr example_tally \<and>
   length (results example_tally) = length example_answers \<and>
   2 < length example_answers \<and>
   py_index example_quiz (wordIndex_res (results example_tally ! 2)) = Inr (example_quiz ! 1) \<and>
   \<not> get_isLevel1 (example_answers ! 2) \<and>
   \<not> country_accepted (example_quiz ! 1) (example_answers ! 2) \<and>
   \<not> correct (results example_tally ! 2) \<and> correctAnswer (results example_tally ! 2) = None \<and>
   userAnswer (results example_tally ! 0) = strip (get_answer (example_answers ! 0)) \<and>
   0 \<le> correct_count example_tally \<and> correct_count example_tally \<le> total_count example_tally \<and>
   total_count example_tally \<le> int (length example_answers)"
proof -
  note t = grade_results_and_counters [OF example_grade]
  have i: "2 < length example_answers" "0 < length example_answers"
    by (simp_all add: example_answers_def)
  have w: "py_index example_quiz (wordIndex_res (results example_tally ! 2)) = Inr (example_quiz ! 1)"
    by (simp add: example_tally_def example_quiz_def py_index_def)
  have l: "\<not> get_isLevel1 (example_answers ! 2)"
    by (simp add: example_answers_def no_country_answer_def get_isLevel1_def)
  have c: "\<not> country_accepted (example_quiz ! 1) (example_answers ! 2)"
    by (simp add: example_answers_def no_country_answer_def country_accepted_def)
  from t i(1) w l c have r2: "\<not> correct (results example_tally ! 2) \<and>
      correctAnswer (results example_tally ! 2) = None"
    by blast
  from t i(2) have r0: "userAnswer (results example_tally ! 0) = strip (get_answer (example_answers ! 0))"
    by blast
  from t have "\<exists>s. grade example_quiz (take (length example_answers) example_answers) = Inr s \<and>
      results s = take (length example_answers) (results example_tally) \<and>
      0 \<le> correct_count s \<and> correct_count s \<le> total_count s \<and>
      total_count s \<le> int (length example_answers)"
    by blast
  then have k: "0 \<le> correct_count example_tally \<and> correct_count example_tally \<le> total_count example_tally \<and>
      total_count example_tally \<le> int (length example_answers)"
    by (simp add: example_grade)
  from t have len: "length (results example_tally) = length example_answers" by blast
  from example_grade len i(1) w l c r2 r0 k show ?thesis by blast
qed

section \<open>Grading a level-1 submission\<close>

text \<open>
  In every level-1 group of the catalog the spelling under \<open>ca\<close> has no surrounding
  whitespace and differs from the US spelling beyond case.
\<close>

lemma catalog_level1_distinct:
  "\<forall>g \<in> set WORD_GROUPS. level g = 1 \<longrightarrow> (\<forall>w \<in> set (words g). distinct_spelling w)"
  by code_simp



section \<open>Grading a submission that is not of level 1\<close>

text \<open>
  The loop body asks whether the country is a key of the question, not whether it is one
  of the five codes. Every generated question also has the keys \<open>note\<close> and \<open>level\<close>:
  a submission for the country \<open>note\<close> is graded against the note, and against the empty
  note of a level-2 question an empty answer is correct.
\<close>

theorem unknown_country_counterexample:
  "''note'' \<notin> set known_countries \<and>
   \<not> get_isLevel1 (country_answer 1 ''note'' []) \<and>
   country (country_answer 1 ''note'' []) = Some ''note'' \<and>
   grade_answer example_quiz tally0 (country_answer 1 ''note'' []) =
     Inr \<lparr>results = [\<lparr>wordIndex_res = 1, isLevel1_res = False, correct = True,
                      correctAnswer = Some [], userAnswer = [],
                      country_res = Some ''note''\<rparr>],
          correct_count = 1, total_count = 1\<rparr>"
  by code_simp

text \<open>
  Claim C1, as amended. For a submission that is not of level 1, whose word index
  resolves to a question and whose country is a non-empty key of that question with a
  string value, the loop body appends one result that carries that string as the correct
  answer, the country, the word index and the trimmed answer; the total goes up by one;
  and the answer is correct exactly when the trimmed, lower-cased answer equals the
  lower-cased string. The key need not be one of the five country codes.
\<close>

theorem country_grading:
  assumes "wordIndex a = Some idx" "py_index quiz_data idx = Inr word" "\<not> get_isLevel1 a"
    "country a = Some c" "c \<noteq> []" "word c = Some (JStr sp)"
  shows "\<exists>r. grade_answer quiz_data st a =
              Inr \<lparr>results = results st @ [r],
                   correct_count = correct_count st + (if correct r then 1 else 0),
                   total_count = total_count st + 1\<rparr> \<and>
           correctAnswer r = Some sp \<and> country_res r = Some c \<and>
           wordIndex_res r = idx \<and> \<not> isLevel1_res r \<and>
           userAnswer r = strip (get_answer a) \<and>
           (correct r \<longleftrightarrow> lower (strip (get_answer a)) = lower sp)"
proof -
  let ?ua = "lower (strip (get_answer a))"
  let ?r = "(new_result idx a)\<lparr>country_res := Some c, correctAnswer := Some sp,
              correct := (?ua = lower sp)\<rparr>"
  have g: "grade_answer quiz_data st a =
      Inr \<lparr>results = results st @ [?r],
           correct_count = correct_count st + (if correct ?r then 1 else 0),
           total_count = total_count st + 1\<rparr>"
    unfolding grade_answer_unfold [OF assms(1,2)]
    using assms(3-6) by (simp add: compare_answer_def new_result_def)
  have "correctAnswer ?r = Some sp" "country_res ?r = Some c" "correct ?r \<longleftrightarrow> ?ua = lower sp"
    "wordIndex_res ?r = idx" "\<not> isLevel1_res ?r" "userAnswer ?r = strip (get_answer a)"
    using assms(3) by (simp_all add: new_result_def)
  with g show ?thesis by blast
qed

theorem country_grading_witness:
  "wordIndex (country_answer 1 ''gb'' '' Tyre'') = Some 1 \<and>
   py_index example_quiz 1 = Inr (example_quiz ! 1) \<and>
   \<not> get_isLevel1 (country_answer 1 ''gb'' '' Tyre'') \<and>
   country (country_answer 1 ''gb'' '' Tyre'') = Some ''gb'' \<and> ''gb'' \<noteq> [] \<and>
   (example_quiz ! 1) ''gb'' = Some (JStr ''tyre'') \<and>
   lower (strip (get_answer (country_answer 1 ''gb'' '' Tyre''))) = lower ''tyre'' \<and>
   grade_answer example_quiz tally0 (country_answer 1 ''gb'' '' Tyre'') =
     Inr \<lparr>results = [\<lparr>wordIndex_res = 1, isLevel1_res = False, correct = True,
                      correctAnswer = Some ''tyre'', userAnswer = ''Tyre'',
                      country_res = Some ''gb''\<rparr>],
          correct_count = 1, total_count = 1\<rparr>"
proof -
  let ?a = "country_answer 1 ''gb'' '' Tyre''"
  have h: "wordIndex ?a = Some 1" "py_index example_quiz 1 = Inr (example_quiz ! 1)"
      "\<not> get_isLevel1 ?a" "country ?a = Some ''gb''" "''gb'' \<noteq> []"
      "(example_quiz ! 1) ''gb'' = Some (JStr ''tyre'')"
    by (simp_all add: country_answer_def py_index_def example_quiz_def get_isLevel1_def)
  have l: "lower (strip (get_answer ?a)) = lower ''tyre''" by code_simp
  have u: "strip (get_answer ?a) = ''Tyre''" by code_simp
  from country_grading [OF h, of tally0] l u obtain r where
    r: "grade_answer example_quiz tally0 ?a =
          Inr \<lparr>results = results tally0 @ [r],
               correct_count = correct_count tally0 + (if correct r then 1 else 0),
               total_count = total_count tally0 + 1\<rparr>"
       "correctAnswer r = Some ''tyre''" "country_res r = Some ''gb''"
       "wordIndex_res r = 1" "\<not> isLevel1_res r" "userAnswer r = ''Tyre''" "correct r"
    by auto
  have "r = \<lparr>wordIndex_res = 1, isLevel1_res = False, correct = True,
                      correctAnswer = Some ''tyre'', userAnswer = ''Tyre'',
                      country_res = Some ''gb''\<rparr>"
    using r(2-7) by (cases r) simp
  with r(1) have e: "grade_answer example_quiz tally0 ?a =
     Inr \<lparr>results = [\<lparr>wordIndex_res = 1, isLevel1_res = False, correct = True,
                      correctAnswer = Some ''tyre'', userAnswer = ''Tyre'',
                      country_res = Some ''gb''\<rparr>],
          correct_count = 1, total_count = 1\<rparr>"
    by (simp add: tally0_def)
  from h l e show ?thesis by simp
qed

section \<open>Bounds on the float operations\<close>

lemma round_half_even_nonneg:
  assumes "0 \<le> n" "0 < d"
  shows "0 \<le> round_half_even n d"
proof -
  from assms have "0 \<le> n div d" by (simp add: pos_imp_zdiv_nonneg_iff)
  then show ?thesis by (auto simp: round_half_even_def Let_def)
qed

lemma round_half_even_le:
  assumes "0 < d" "n \<le> k * d"
  shows "round_half_even n d \<le> k"
proof -
  let ?q = "n div d" and ?r = "n mod d"
  have n: "n = ?q * d + ?r" by simp
  have r: "0 \<le> ?r" "?r < d" using assms(1) by simp_all
  show ?thesis
  proof (cases "?q < k")
    case True
    then show ?thesis by (auto simp: round_half_even_def Let_def)
  next
    case False
    then have kq: "k \<le> ?q" by simp
    then have "k * d \<le> ?q * d" using assms(1) by (simp add: mult_right_mono)
    with assms(2) n r have r0: "?r = 0" and "?q * d \<le> k * d" by linarith+
    with assms(1) have "?q \<le> k" by simp
    with kq have "?q = k" by simp
    with r0 assms(1) show ?thesis by (simp add: round_half_even_def Let_def)
  qed
qed

lemma bit_length_bounds:
  "0 < n \<Longrightarrow> 2 ^ (bit_length n - 1) \<le> n \<and> n < 2 ^ bit_length n"
proof (induction n rule: bit_length.induct)
  case (1 n)
  show ?case
  proof (cases "n div 2 = 0")
    case True
    with "1.prems" have n1: "n = 1" by presburger
    have "bit_length 1 = 1"
      by (simp add: bit_length.simps)
    with n1 show ?thesis by simp
  next
    case False
    with "1.prems" have pos: "0 < n div 2" by presburger
    from "1.prems" have ge: "\<not> n \<le> 0" by simp
    from "1.IH" [OF ge pos] have ih: "2 ^ (bit_length (n div 2) - 1) \<le> n div 2"
        "n div 2 < 2 ^ bit_length (n div 2)" by simp_all
    from pos have blpos: "0 < bit_length (n div 2)"
      by (subst bit_length.simps) simp
    have bl: "bit_length n = Suc (bit_length (n div 2))"
      using ge by (subst bit_length.simps) simp
    have "2 ^ (bit_length n - 1) = 2 * (2::int) ^ (bit_length (n div 2) - 1)"
      using blpos bl by (cases "bit_length (n div 2)") simp_all
    also have "\<dots> \<le> 2 * (n div 2)" using ih(1) by simp
    also have "\<dots> \<le> n" by presburger
    finally have lo: "2 ^ (bit_length n - 1) \<le> n" .
    have "n < 2 * (n div 2) + 2" by presburger
    also have "\<dots> \<le> 2 * 2 ^ bit_length (n div 2)" using ih(2) by simp
    finally have "n < 2 ^ bit_length n" using bl by simp
    with lo show ?thesis by simp
  qed
qed

lemma floor_log2_lower:
  assumes "0 < n" "0 < d"
  shows "at_least_pow2 n d (floor_log2 n d)"
proof -
  let ?a = "bit_length n" and ?b = "bit_length d"
  let ?k = "int ?a - int ?b"
  from bit_length_bounds [OF assms(1)] have n: "2 ^ (?a - 1) \<le> n" by simp
  from bit_length_bounds [OF assms(2)] have d: "d < 2 ^ ?b" by simp
  have apos: "0 < ?a" using assms(1) by (subst bit_length.simps) simp
  show ?thesis
  proof (cases "at_least_pow2 n d ?k")
    case True
    then show ?thesis by (simp add: floor_log2_def Let_def)
  next
    case False
    then have fl: "floor_log2 n d = ?k - 1" by (simp add: floor_log2_def Let_def)
    have "at_least_pow2 n d (?k - 1)"
    proof (cases "0 \<le> ?k - 1")
      case True
      then have ab: "?b + 1 \<le> ?a" by linarith
      then have e: "nat (?k - 1) = ?a - ?b - 1" by linarith
      have "d * 2 ^ (?a - ?b - 1) \<le> 2 ^ ?b * 2 ^ (?a - ?b - 1)"
        using d by (simp add: mult_right_mono)
      also have "\<dots> = 2 ^ (?b + (?a - ?b - 1))" by (simp add: power_add)
      also have "?b + (?a - ?b - 1) = ?a - 1" using ab by simp
      finally have "d * 2 ^ (?a - ?b - 1) \<le> n" using n by simp
      with True e show ?thesis by (simp add: at_least_pow2_def)
    next
      case False
      then have ab: "?a \<le> ?b" by linarith
      then have e: "nat (- (?k - 1)) = ?b - ?a + 1" by linarith
      have "2 ^ ?b = (2::int) ^ ((?a - 1) + (?b - ?a + 1))"
        using ab apos by simp
      also have "\<dots> = 2 ^ (?a - 1) * 2 ^ (?b - ?a + 1)" by (simp only: power_add)
      also have "\<dots> \<le> n * 2 ^ (?b - ?a + 1)" using n by (simp add: mult_right_mono)
      finally have "d \<le> n * 2 ^ (?b - ?a + 1)" using d by simp
      with False e show ?thesis by (simp add: at_least_pow2_def)
    qed
    with fl show ?thesis by simp
  qed
qed

lemma floor_log2_small:
  assumes "0 < n" "0 < d" "n \<le> k * d" "k < 2 ^ 53"
  shows "floor_log2 n d \<le> 52"
proof (rule ccontr)
  assume "\<not> floor_log2 n d \<le> 52"
  then have f: "53 \<le> floor_log2 n d" by simp
  with floor_log2_lower [OF assms(1,2)] have "d * 2 ^ nat (floor_log2 n d) \<le> n"
    by (simp add: at_least_pow2_def)
  with assms(3) have "d * 2 ^ nat (floor_log2 n d) \<le> k * d" by simp
  with assms(2) have "2 ^ nat (floor_log2 n d) \<le> k" by (simp add: mult.commute)
  moreover from f have "(2::int) ^ 53 \<le> 2 ^ nat (floor_log2 n d)"
    by (intro power_increasing) simp_all
  ultimately show False using assms(4) by simp
qed

lemma to_double_at_most:
  assumes "0 \<le> n" "0 < d" "n \<le> k * d" "k < 2 ^ 53"
  shows "at_most (to_double False n d) k"
proof (cases "n = 0")
  case True
  with assms(3,2) have "0 \<le> k" by (simp add: zero_le_mult_iff)
  with True show ?thesis by (simp add: to_double_def)
next
  case False
  with assms(1) have pos: "0 < n" by simp
  define e where "e = max (floor_log2 n d - 52) (- 1074)"
  from floor_log2_small [OF pos assms(2,3,4)] have e: "e \<le> 0" by (simp add: e_def)
  have td: "to_double False n d =
      (if 0 \<le> e then Double False (round_half_even n (d * 2 ^ nat e)) e
       else Double False (round_half_even (n * 2 ^ nat (- e)) d) e)"
    using False by (simp add: to_double_def Let_def e_def)
  show ?thesis
  proof (cases "0 \<le> e")
    case True
    with e have e0: "e = 0" by simp
    have "round_half_even n d \<le> k" using assms(2,3) by (rule round_half_even_le)
    moreover have "0 \<le> round_half_even n d" using assms(1,2) by (rule round_half_even_nonneg)
    ultimately show ?thesis unfolding td using e0 by simp
  next
    case neg: False
    let ?p = "(2::int) ^ nat (- e)"
    have "n * ?p \<le> (k * d) * ?p" using assms(3) by (intro mult_right_mono) simp_all
    then have "n * ?p \<le> (k * ?p) * d" by (simp add: mult.commute mult.left_commute)
    with assms(2) have "round_half_even (n * ?p) d \<le> k * ?p" by (rule round_half_even_le)
    moreover have "0 \<le> round_half_even (n * ?p) d"
      using assms(1,2) by (intro round_half_even_nonneg) simp_all
    ultimately show ?thesis unfolding td using neg e by simp
  qed
qed

lemma double_mult_at_most:
  assumes "at_most x k1" "at_most y k2" "0 \<le> k1" "k1 * k2 < 2 ^ 53"
  shows "at_most (double_mult x y) (k1 * k2)"
proof -
  obtain s1 m1 e1 where x: "x = Double s1 m1 e1" by (cases x)
  obtain s2 m2 e2 where y: "y = Double s2 m2 e2" by (cases y)
  from assms(1) x have hx: "\<not> s1" "0 \<le> m1" "e1 \<le> 0" "m1 \<le> k1 * 2 ^ nat (- e1)" by simp_all
  from assms(2) y have hy: "\<not> s2" "0 \<le> m2" "e2 \<le> 0" "m2 \<le> k2 * 2 ^ nat (- e2)" by simp_all
  have nn: "0 \<le> m1 * m2" using hx(2) hy(2) by simp
  have "m1 * m2 \<le> (k1 * 2 ^ nat (- e1)) * (k2 * 2 ^ nat (- e2))"
    using hx(2,4) hy(2,4) assms(3) by (intro mult_mono) simp_all
  also have "\<dots> = (k1 * k2) * (2 ^ nat (- e1) * 2 ^ nat (- e2))" by (simp add: algebra_simps)
  also have "2 ^ nat (- e1) * 2 ^ nat (- e2) = (2::int) ^ nat (- (e1 + e2))"
    using hx(3) hy(3) by (simp add: power_add [symmetric] nat_add_distrib)
  finally have le: "m1 * m2 \<le> (k1 * k2) * 2 ^ nat (- (e1 + e2))" .
  show ?thesis
  proof (cases "0 \<le> e1 + e2")
    case True
    with hx(3) hy(3) have z: "e1 + e2 = 0" by simp
    with le have "m1 * m2 \<le> (k1 * k2) * 1" by simp
    from to_double_at_most [OF nn _ this assms(4)] True z x y hx(1) hy(1)
    show ?thesis by simp
  next
    case False
    from to_double_at_most [OF nn _ le assms(4)] False x y hx(1) hy(1)
    show ?thesis by simp
  qed
qed

lemma py_round_at_most:
  assumes "at_most x k"
  shows "0 \<le> py_round x \<and> py_round x \<le> k"
proof -
  obtain s m e where x: "x = Double s m e" by (cases x)
  from assms x have h: "\<not> s" "0 \<le> m" "e \<le> 0" "m \<le> k * 2 ^ nat (- e)" by simp_all
  show ?thesis
  proof (cases "0 \<le> e")
    case True
    with h(3) have "e = 0" by simp
    with h x show ?thesis by simp
  next
    case False
    have "round_half_even m (2 ^ nat (- e)) \<le> k"
      using h(4) by (intro round_half_even_le) simp_all
    moreover have "0 \<le> round_half_even m (2 ^ nat (- e))"
      using h(2) by (intro round_half_even_nonneg) simp_all
    ultimately show ?thesis using False x h(1) by simp
  qed
qed

lemma percentage_bounds:
  assumes "0 \<le> c" "c \<le> t"
  shows "0 \<le> percentage c t \<and> percentage c t \<le> 100"
proof (cases "0 < t")
  case False
  then show ?thesis by (simp add: percentage_def)
next
  case True
  have q: "at_most (truediv c t) 1"
    using to_double_at_most [of c t 1] assms True by (simp add: truediv_def)
  have h: "at_most (double_of_int 100) 100"
    using to_double_at_most [of 100 1 100] by (simp add: double_of_int_def)
  from double_mult_at_most [OF q h] have "at_most (double_mult (truediv c t) (double_of_int 100)) 100"
    by simp
  from py_round_at_most [OF this] True show ?thesis by (simp add: percentage_def)
qed

lemma percentage_zero_correct: "percentage 0 t = 0"
proof (cases "double_of_int 100")
  case (Double s m e)
  then show ?thesis
    by (simp add: percentage_def truediv_def to_double_def)
qed

section \<open>The percentage of a grading run\<close>

text \<open>
  One wrong level-1 answer: the total is 1 and the percentage is 0, so a percentage of 0
  does not mean that nothing was counted.
\<close>

theorem percentage_zero_counterexample:
  "grade example_quiz [level1_answer 0 ''canceled''] =
     Inr \<lparr>results = [\<lparr>wordIndex_res = 0, isLevel1_res = True, correct = False,
                      correctAnswer = Some ''cancelled'', userAnswer = ''canceled'',
                      country_res = None\<rparr>],
          correct_count = 0, total_count = 1\<rparr> \<and>
   percentage 0 1 = 0"
  by code_simp

text \<open>
  Claim C2, as amended. After every grading run the percentage is the rounded float
  \<open>correct_count / total_count * 100\<close> when the total is positive and 0 when the total
  is 0; it lies between 0 and 100; and it is 0 whenever the total is 0, and also whenever
  no answer was correct.
\<close>

theorem percentage_of_grading:
  assumes "grade quiz_data submitted = Inr st"
  shows "percentage (correct_count st) (total_count st) =
           (if total_count st > 0
            then py_round (double_mult (truediv (correct_count st) (total_count st))
                             (double_of_int 100))
            else 0) \<and>
         0 \<le> percentage (correct_count st) (total_count st) \<and>
         percentage (correct_count st) (total_count st) \<le> 100 \<and>
         (total_count st = 0 \<longrightarrow> percentage (correct_count st) (total_count st) = 0) \<and>
         (correct_count st = 0 \<longrightarrow> percentage (correct_count st) (total_count st) = 0)"
proof -
  from grade_prefix [OF assms, of "length submitted"]
  have c: "0 \<le> correct_count st" "correct_count st \<le> total_count st"
    by (simp_all add: assms)
  from percentage_bounds [OF c]
  have "0 \<le> percentage (correct_count st) (total_count st)"
    "percentage (correct_count st) (total_count st) \<le> 100" by simp_all
  moreover have "total_count st = 0 \<longrightarrow> percentage (correct_count st) (total_count st) = 0"
    by (simp add: percentage_def)
  moreover have "correct_count st = 0 \<longrightarrow> percentage (correct_count st) (total_count st) = 0"
    by (simp add: percentage_zero_correct)
  ultimately show ?thesis by (simp add: percentage_def)
qed

lemma example_skip_grade:
  "grade example_quiz [no_country_answer 1 ''tire''] =
     Inr \<lparr>results = [\<lparr>wordIndex_res = 1, isLevel1_res = False, correct = False,
                      correctAnswer = None, userAnswer = ''tire'', country_res = None\<rparr>],
          correct_count = 0, total_count = 0\<rparr>"
  by code_simp

theorem percentage_of_grading_witness:
  "grade example_quiz [no_country_answer 1 ''tire''] =
     Inr \<lparr>results = [\<lparr>wordIndex_res = 1, isLevel1_res = False, correct = False,
                      correctAnswer = None, userAnswer = ''tire'', country_res = None\<rparr>],
          correct_count = 0, total_count = 0\<rparr> \<and>
   percentage 0 0 = 0 \<and>
   grade example_quiz example_answers = Inr example_tally \<and>
   0 \<le> percentage (correct_count example_tally) (total_count example_tally) \<and>
   percentage (correct_count example_tally) (total_count example_tally) \<le> 100 \<and>
   percentage 2 2 = 100"
proof -
  from percentage_of_grading [OF example_skip_grade] have a: "percentage 0 0 = 0"
    by simp
  from percentage_of_grading [OF example_grade]
  have b: "0 \<le> percentage (correct_count example_tally) (total_count example_tally)"
    "percentage (correct_count example_tally) (total_count example_tally) \<le> 100"
    by simp_all
  have c: "percentage 2 2 = 100" by code_simp
  from example_skip_grade a example_grade b c show ?thesis by simp
qed

section \<open>Statements of the store\<close>

lemma fold_max_ge: "seq \<le> fold max ids (seq::int) \<and> (\<forall>x \<in> set ids. x \<le> fold max ids seq)"
proof (induction ids arbitrary: seq)
  case Nil
  then show ?case by simp
next
  case (Cons a ids)
  from Cons [of "max a seq"] show ?case by auto
qed

lemma next_rowid_fresh: "seq < next_rowid seq ids \<and> (\<forall>x \<in> set ids. x < next_rowid seq ids)"
  using fold_max_ge [of seq ids] by (auto simp: next_rowid_def)

lemma working_pending [simp]: "working (conn\<lparr>pending := Some w\<rparr>) = w"
  by (simp add: working_def)

lemma insert_answer_committed: "committed (snd (insert_answer conn aid r)) = committed conn"
  by (simp add: insert_answer_def Let_def split: option.splits)

lemma insert_answers_committed: "committed (snd (insert_answers conn aid rs)) = committed conn"
proof (induction rs arbitrary: conn)
  case Nil
  then show ?case by simp
next
  case (Cons r rs)
  obtain out conn' where i: "insert_answer conn aid r = (out, conn')" by (cases "insert_answer conn aid r")
  with insert_answer_committed [of conn aid r] have c: "committed conn' = committed conn" by simp
  show ?case
  proof (cases out)
    case (Inl e)
    with i c show ?thesis by simp
  next
    case (Inr u)
    with i c Cons [of conn'] show ?thesis by simp
  qed
qed

lemma insert_attempt_committed:
  "committed (snd (insert_attempt conn ip ts sc cc tc)) = committed conn"
  by (simp add: insert_attempt_def Let_def split: option.splits)

lemma insert_answer_Inr:
  assumes "insert_answer conn aid r = (Inr u, conn')"
  shows "\<exists>rowid sp. correctAnswer r = Some sp \<and>
           quiz_answers (working conn') = quiz_answers (working conn) @ [answer_row_of rowid aid r sp] \<and>
           quiz_attempts (working conn') = quiz_attempts (working conn) \<and>
           seq_attempts (working conn') = seq_attempts (working conn)"
  using assms by (auto simp: insert_answer_def Let_def split: option.splits)

lemma insert_answer_Inl:
  assumes "insert_answer conn aid r = (Inl e, conn')"
  shows "e = IntegrityError \<and> correctAnswer r = None"
  using assms by (auto simp: insert_answer_def Let_def split: option.splits)

lemma insert_answers_Inr:
  assumes "insert_answers conn aid rs = (Inr u, conn')"
  shows "quiz_attempts (working conn') = quiz_attempts (working conn) \<and>
         seq_attempts (working conn') = seq_attempts (working conn) \<and>
         (\<exists>rows. quiz_answers (working conn') = quiz_answers (working conn) @ rows \<and>
            length rows = length rs \<and>
            (\<forall>i < length rs. \<exists>rowid sp. correctAnswer (rs ! i) = Some sp \<and>
               rows ! i = answer_row_of rowid aid (rs ! i) sp))"
  using assms
proof (induction rs arbitrary: conn)
  case Nil
  then show ?case by simp
next
  case (Cons r rs)
  obtain out c1 where i: "insert_answer conn aid r = (out, c1)" by (cases "insert_answer conn aid r")
  with Cons.prems obtain u1 where out: "out = Inr u1" by (cases out) auto
  with i Cons.prems have rest: "insert_answers c1 aid rs = (Inr u, conn')" by simp
  from insert_answer_Inr [OF i [unfolded out]] obtain rowid sp where
    h: "correctAnswer r = Some sp"
       "quiz_answers (working c1) = quiz_answers (working conn) @ [answer_row_of rowid aid r sp]"
       "quiz_attempts (working c1) = quiz_attempts (working conn)"
       "seq_attempts (working c1) = seq_attempts (working conn)" by blast
  from Cons.IH [OF rest] obtain rows where
    t: "quiz_attempts (working conn') = quiz_attempts (working c1)"
       "seq_attempts (working conn') = seq_attempts (working c1)"
       "quiz_answers (working conn') = quiz_answers (working c1) @ rows"
       "length rows = length rs"
       "\<forall>i < length rs. \<exists>rowid sp. correctAnswer (rs ! i) = Some sp \<and>
               rows ! i = answer_row_of rowid aid (rs ! i) sp" by blast
  let ?rows = "answer_row_of rowid aid r sp # rows"
  have a: "quiz_answers (working conn') = quiz_answers (working conn) @ ?rows"
    using h(2) t(3) by simp
  have b: "length ?rows = length (r # rs)" using t(4) by simp
  have c: "\<exists>rowid sp. correctAnswer ((r # rs) ! i) = Some sp \<and>
               ?rows ! i = answer_row_of rowid aid ((r # rs) ! i) sp"
    if "i < length (r # rs)" for i
  proof (cases i)
    case 0
    with h(1) show ?thesis by auto
  next
    case (Suc j)
    with that t(5) show ?thesis by simp
  qed
  from a b c h(3,4) t(1,2) show ?case by (metis (no_types, lifting))
qed

lemma insert_answers_Inl:
  assumes "insert_answers conn aid rs = (Inl e, conn')"
  shows "e = IntegrityError \<and> (\<exists>r \<in> set rs. correctAnswer r = None)"
  using assms
proof (induction rs arbitrary: conn)
  case Nil
  then show ?case by simp
next
  case (Cons r rs)
  obtain out c1 where i: "insert_answer conn aid r = (out, c1)" by (cases "insert_answer conn aid r")
  show ?case
  proof (cases out)
    case (Inl e')
    with i Cons.prems have "e' = e" by simp
    with insert_answer_Inl [OF i [unfolded Inl]] show ?thesis by simp
  next
    case (Inr u)
    with i Cons.prems have "insert_answers c1 aid rs = (Inl e, conn')" by simp
    from Cons.IH [OF this] show ?thesis by simp
  qed
qed

lemma insert_answers_total:
  assumes "\<forall>r \<in> set rs. correctAnswer r \<noteq> None"
  shows "\<exists>conn'. insert_answers conn aid rs = (Inr (), conn')"
proof -
  obtain out conn' where o: "insert_answers conn aid rs = (out, conn')"
    by (cases "insert_answers conn aid rs")
  show ?thesis
  proof (cases out)
    case (Inl e)
    with insert_answers_Inl [OF o [unfolded Inl]] assms show ?thesis by blast
  next
    case (Inr u)
    with o show ?thesis by simp
  qed
qed

lemma save_attempt_Inl:
  assumes "save_attempt db ip ts sc cc tc rs = (Inl e, db')"
  shows "db' = db \<and> e = IntegrityError \<and> (ip = None \<or> (\<exists>r \<in> set rs. correctAnswer r = None))"
proof -
  let ?c0 = "get_db_connection db"
  obtain o1 c1 where i: "insert_attempt ?c0 ip ts sc cc tc = (o1, c1)"
    by (cases "insert_attempt ?c0 ip ts sc cc tc")
  from insert_attempt_committed [of ?c0 ip ts sc cc tc] i
  have c1: "committed c1 = db" by (simp add: get_db_connection_def)
  show ?thesis
  proof (cases o1)
    case (Inl e1)
    with i assms have "e1 = e" "db' = close c1" by (simp_all add: save_attempt_def)
    moreover from i Inl have "e1 = IntegrityError \<and> ip = None"
      by (auto simp: insert_attempt_def Let_def split: option.splits)
    ultimately show ?thesis using c1 by (simp add: close_def)
  next
    case (Inr aid)
    obtain o2 c2 where a: "insert_answers c1 aid rs = (o2, c2)"
      by (cases "insert_answers c1 aid rs")
    from insert_answers_committed [of c1 aid rs] a c1 have c2: "committed c2 = db" by simp
    from assms i Inr a obtain e2 where o2: "o2 = Inl e2"
      by (cases o2) (simp_all add: save_attempt_def)
    with assms i Inr a have "e2 = e" "db' = close c2" by (simp_all add: save_attempt_def)
    with insert_answers_Inl [OF a [unfolded o2]] c2 show ?thesis by (simp add: close_def)
  qed
qed

lemma save_attempt_Inr:
  assumes "save_attempt db ip ts sc cc tc rs = (Inr aid, db')"
  shows "\<exists>a rows. ip = Some a \<and>
           aid = next_rowid (seq_attempts db) (map attempt_rowid (quiz_attempts db)) \<and>
           quiz_attempts db' = quiz_attempts db @
             [\<lparr>attempt_rowid = aid, ip_address = a, timestamp = ts, final_score = sc,
               correct_count_col = cc, total_count_col = tc\<rparr>] \<and>
           quiz_answers db' = quiz_answers db @ rows \<and> length rows = length rs \<and>
           (\<forall>i < length rs. \<exists>rowid sp. correctAnswer (rs ! i) = Some sp \<and>
              rows ! i = answer_row_of rowid aid (rs ! i) sp)"
proof -
  let ?c0 = "get_db_connection db"
  obtain o1 c1 where i: "insert_attempt ?c0 ip ts sc cc tc = (o1, c1)"
    by (cases "insert_attempt ?c0 ip ts sc cc tc")
  from assms i obtain aid1 where o1: "o1 = Inr aid1"
    by (cases o1) (simp_all add: save_attempt_def)
  obtain o2 c2 where a: "insert_answers c1 aid1 rs = (o2, c2)"
    by (cases "insert_answers c1 aid1 rs")
  from assms i o1 a obtain u where o2: "o2 = Inr u"
    by (cases o2) (simp_all add: save_attempt_def)
  from assms i o1 a o2 have r: "aid1 = aid" "db' = close (commit c2)"
    by (simp_all add: save_attempt_def)
  then have db': "db' = working c2" by (simp add: close_def commit_def)
  have w0: "working ?c0 = db" by (simp add: working_def get_db_connection_def)
  from i o1 r(1) w0 obtain ad where
    ip: "ip = Some ad"
      "aid = next_rowid (seq_attempts db) (map attempt_rowid (quiz_attempts db))"
      "quiz_attempts (working c1) = quiz_attempts db @
         [\<lparr>attempt_rowid = aid, ip_address = ad, timestamp = ts, final_score = sc,
           correct_count_col = cc, total_count_col = tc\<rparr>]"
      "quiz_answers (working c1) = quiz_answers db"
    by (cases ip) (auto simp: insert_attempt_def Let_def)
  from insert_answers_Inr [OF a [unfolded o2 r(1)]] obtain rows where
    t: "quiz_attempts (working c2) = quiz_attempts (working c1)"
       "quiz_answers (working c2) = quiz_answers (working c1) @ rows"
       "length rows = length rs"
       "\<forall>i < length rs. \<exists>rowid sp. correctAnswer (rs ! i) = Some sp \<and>
               rows ! i = answer_row_of rowid aid (rs ! i) sp" by blast
  from ip t db' show ?thesis by (metis (no_types, lifting))
qed

lemma save_attempt_total:
  assumes "ip \<noteq> None" "\<forall>r \<in> set rs. correctAnswer r \<noteq> None"
  shows "\<exists>aid db'. save_attempt db ip ts sc cc tc rs = (Inr aid, db')"
proof -
  obtain out db' where o: "save_attempt db ip ts sc cc tc rs = (out, db')"
    by (cases "save_attempt db ip ts sc cc tc rs")
  show ?thesis
  proof (cases out)
    case (Inl e)
    with save_attempt_Inl [OF o [unfolded Inl]] assms show ?thesis by blast
  next
    case (Inr aid)
    with o show ?thesis by simp
  qed
qed

section \<open>Recording an attempt is atomic\<close>

lemma answer_row_of_fields:
  "attempt_id (answer_row_of rowid aid r sp) = aid"
  "word_index (answer_row_of rowid aid r sp) = wordIndex_res r"
  "user_answer (answer_row_of rowid aid r sp) = userAnswer r"
  "correct_answer (answer_row_of rowid aid r sp) = sp"
  "country_col (answer_row_of rowid aid r sp) = country_res r"
  by (simp_all add: answer_row_of_def)

text \<open>
  Claim C7. The attempt row and its answer rows are written in one transaction with one
  commit at the end. The database that other connections read stays as it was after the
  attempt row is inserted and after every number of inserted answer rows. When a
  statement fails, nothing is committed and the database is unchanged. When all succeed,
  the database gains exactly the attempt row, under a key that no earlier attempt has,
  and one answer row for each result, in order, each referring to the new attempt. If
  every answer row referred to an attempt before, the same holds after, and the answer
  rows of the new attempt are exactly the rows just written.
\<close>

theorem attempt_saved_atomically:
  assumes "save_attempt db ip ts sc cc tc rs = (outcome, db')"
  shows "committed (snd (insert_attempt (get_db_connection db) ip ts sc cc tc)) = db \<and>
    (\<forall>k \<le> length rs. \<forall>aid.
       committed (snd (insert_answers
         (snd (insert_attempt (get_db_connection db) ip ts sc cc tc)) aid (take k rs))) = db) \<and>
    (\<forall>e. outcome = Inl e \<longrightarrow> db' = db) \<and>
    (\<forall>aid. outcome = Inr aid \<longrightarrow>
       (\<exists>t rows.
          quiz_attempts db' = quiz_attempts db @ [t] \<and> attempt_rowid t = aid \<and>
          final_score t = sc \<and>
          (\<forall>u \<in> set (quiz_attempts db). attempt_rowid u \<noteq> aid) \<and>
          quiz_answers db' = quiz_answers db @ rows \<and> length rows = length rs \<and>
          (\<forall>i < length rs. attempt_id (rows ! i) = aid \<and>
             word_index (rows ! i) = wordIndex_res (rs ! i) \<and>
             user_answer (rows ! i) = userAnswer (rs ! i) \<and>
             Some (correct_answer (rows ! i)) = correctAnswer (rs ! i)) \<and>
          (consistent db \<longrightarrow>
             filter (\<lambda>r. attempt_id r = aid) (quiz_answers db') = rows))) \<and>
    (consistent db \<longrightarrow> consistent db')"
proof -
  let ?c1 = "snd (insert_attempt (get_db_connection db) ip ts sc cc tc)"
  have c1: "committed ?c1 = db"
    by (simp add: insert_attempt_committed get_db_connection_def)
  have steps: "\<forall>k \<le> length rs. \<forall>aid. committed (snd (insert_answers ?c1 aid (take k rs))) = db"
    by (simp add: insert_answers_committed c1)
  have fail: "\<forall>e. outcome = Inl e \<longrightarrow> db' = db"
    using save_attempt_Inl assms by blast
  have ok: "\<exists>t rows.
          quiz_attempts db' = quiz_attempts db @ [t] \<and> attempt_rowid t = aid \<and>
          final_score t = sc \<and>
          (\<forall>u \<in> set (quiz_attempts db). attempt_rowid u \<noteq> aid) \<and>
          quiz_answers db' = quiz_answers db @ rows \<and> length rows = length rs \<and>
          (\<forall>i < length rs. attempt_id (rows ! i) = aid \<and>
             word_index (rows ! i) = wordIndex_res (rs ! i) \<and>
             user_answer (rows ! i) = userAnswer (rs ! i) \<and>
             Some (correct_answer (rows ! i)) = correctAnswer (rs ! i)) \<and>
          (consistent db \<longrightarrow> consistent db' \<and>
             filter (\<lambda>r. attempt_id r = aid) (quiz_answers db') = rows)"
    if out: "outcome = Inr aid" for aid
  proof -
    from save_attempt_Inr [OF assms [unfolded out]] obtain a rows where
      h: "aid = next_rowid (seq_attempts db) (map attempt_rowid (quiz_attempts db))"
         "quiz_attempts db' = quiz_attempts db @
             [\<lparr>attempt_rowid = aid, ip_address = a, timestamp = ts, final_score = sc,
               correct_count_col = cc, total_count_col = tc\<rparr>]"
         "quiz_answers db' = quiz_answers db @ rows" "length rows = length rs"
         "\<forall>i < length rs. \<exists>rowid sp. correctAnswer (rs ! i) = Some sp \<and>
              rows ! i = answer_row_of rowid aid (rs ! i) sp"
      by blast
    let ?t = "\<lparr>attempt_rowid = aid, ip_address = a, timestamp = ts, final_score = sc,
               correct_count_col = cc, total_count_col = tc\<rparr>"
    have fresh: "\<forall>u \<in> set (quiz_attempts db). attempt_rowid u \<noteq> aid"
      using next_rowid_fresh [of "seq_attempts db" "map attempt_rowid (quiz_attempts db)"] h(1)
      by fastforce
    have rows: "attempt_id (rows ! i) = aid \<and>
             word_index (rows ! i) = wordIndex_res (rs ! i) \<and>
             user_answer (rows ! i) = userAnswer (rs ! i) \<and>
             Some (correct_answer (rows ! i)) = correctAnswer (rs ! i)"
      if "i < length rs" for i
      using h(5) that by (auto simp: answer_row_of_fields)
    have all_new: "\<forall>r \<in> set rows. attempt_id r = aid"
      using rows h(4) by (auto simp: in_set_conv_nth)
    have cons: "consistent db' \<and> filter (\<lambda>r. attempt_id r = aid) (quiz_answers db') = rows"
      if c: "consistent db"
    proof -
      from c fresh have old: "\<forall>r \<in> set (quiz_answers db). attempt_id r \<noteq> aid"
        unfolding consistent_def by metis
      then have "filter (\<lambda>r. attempt_id r = aid) (quiz_answers db) = []"
        by (simp add: filter_empty_conv)
      moreover from all_new have "filter (\<lambda>r. attempt_id r = aid) rows = rows"
        by (simp add: filter_id_conv)
      ultimately have f: "filter (\<lambda>r. attempt_id r = aid) (quiz_answers db') = rows"
        using h(3) by simp
      have "consistent db'"
        unfolding consistent_def h(2,3) using c all_new
        by (auto simp: consistent_def)
      with f show ?thesis by simp
    qed
    have "attempt_rowid ?t = aid" "final_score ?t = sc" by simp_all
    with h(2,3,4) fresh rows cons show ?thesis by blast
  qed
  have keep: "consistent db \<longrightarrow> consistent db'"
  proof (cases outcome)
    case (Inl e)
    with fail show ?thesis by simp
  next
    case (Inr aid)
    from ok [OF this] show ?thesis by blast
  qed
  from c1 steps fail ok keep show ?thesis by blast
qed

lemma example_save:
  "save_attempt empty_database (Some ''127.0.0.1'') ''2024-05-01T12:00:00'' 100 2 2
     (take 2 (results example_tally)) = (Inr 1, example_saved)"
  by code_simp

lemma example_save_fails:
  "save_attempt example_saved (Some ''127.0.0.1'') ''2024-05-01T12:05:00'' 67 2 2
     (results example_tally) = (Inl IntegrityError, example_saved)"
  by code_simp

theorem attempt_saved_atomically_witness:
  "save_attempt empty_database (Some ''127.0.0.1'') ''2024-05-01T12:00:00'' 100 2 2
     (take 2 (results example_tally)) = (Inr 1, example_saved) \<and>
   consistent empty_database \<and> consistent example_saved \<and>
   filter (\<lambda>r. attempt_id r = 1) (quiz_answers example_saved) = quiz_answers example_saved \<and>
   save_attempt example_saved (Some ''127.0.0.1'') ''2024-05-01T12:05:00'' 67 2 2
     (results example_tally) = (Inl IntegrityError, example_saved) \<and>
   1 \<le> length (results example_tally) \<and>
   committed (snd (insert_answers
     (snd (insert_attempt (get_db_connection example_saved) (Some ''127.0.0.1'')
        ''2024-05-01T12:05:00'' 67 2 2)) 2 (take 1 (results example_tally)))) = example_saved"
proof -
  note a = attempt_saved_atomically [OF example_save]
  note b = attempt_saved_atomically [OF example_save_fails]
  have c0: "consistent empty_database"
    by (simp add: consistent_def empty_database_def)
  from a c0 have c1: "consistent example_saved" by blast
  from a c0 obtain rows where
    r: "quiz_answers example_saved = quiz_answers empty_database @ rows"
       "filter (\<lambda>r. attempt_id r = 1) (quiz_answers example_saved) = rows"
    by blast
  then have f: "filter (\<lambda>r. attempt_id r = 1) (quiz_answers example_saved) = quiz_answers example_saved"
    by (simp add: empty_database_def)
  have k: "1 \<le> length (results example_tally)"
    by (simp add: example_tally_def)
  with b have s: "committed (snd (insert_answers
     (snd (insert_attempt (get_db_connection example_saved) (Some ''127.0.0.1'')
        ''2024-05-01T12:05:00'' 67 2 2)) 2 (take 1 (results example_tally)))) = example_saved"
    by blast
  from example_save c0 c1 f example_save_fails k s show ?thesis by blast
qed

section \<open>What a successful request returns and stores\<close>

lemma strip_decompose:
  "\<exists>l t. s = l @ strip s @ t \<and> list_all isspace l \<and> list_all isspace t"
proof -
  let ?d = "dropWhile isspace s"
  let ?l = "takeWhile isspace s" and ?t = "rev (takeWhile isspace (rev ?d))"
  have "rev (dropWhile isspace (rev ?d)) @ rev (takeWhile isspace (rev ?d)) =
      rev (takeWhile isspace (rev ?d) @ dropWhile isspace (rev ?d))"
    by (simp only: rev_append)
  also have "\<dots> = rev (rev ?d)" by (simp only: takeWhile_dropWhile_id)
  also have "\<dots> = ?d" by simp
  finally have d: "?d = strip s @ ?t" by (simp add: strip_def)
  have "s = ?l @ ?d" by simp
  with d have "s = ?l @ strip s @ ?t" by simp
  moreover have "list_all isspace ?l" "list_all isspace ?t"
    by (auto simp: list_all_iff dest: set_takeWhileD)
  ultimately show ?thesis by blast
qed

lemma check_answers_Inr:
  assumes "check_answers db now req = (Inr resp, db')"
  shows "\<exists>st aid. grade (get_quizData req) (get_answers req) = Inr st \<and>
           save_attempt db (client_address req) now
             (percentage (correct_count st) (total_count st))
             (correct_count st) (total_count st) (results st) = (Inr aid, db') \<and>
           resp = \<lparr>results_out = results st, score_correct = correct_count st,
                   score_total = total_count st,
                   score_percentage = percentage (correct_count st) (total_count st),
                   statistics = get_statistics db'\<rparr>"
proof (cases "grade (get_quizData req) (get_answers req)")
  case (Inl e)
  with assms show ?thesis by (simp add: check_answers_def)
next
  case (Inr st)
  let ?sc = "percentage (correct_count st) (total_count st)"
  obtain out d where s: "save_attempt db (client_address req) now ?sc
      (correct_count st) (total_count st) (results st) = (out, d)"
    by (cases "save_attempt db (client_address req) now ?sc
      (correct_count st) (total_count st) (results st)")
  show ?thesis
  proof (cases out)
    case (Inl e)
    with assms Inr s show ?thesis by (simp add: check_answers_def Let_def)
  next
    case r: (Inr aid)
    with assms Inr s have "d = db'" and
      "resp = \<lparr>results_out = results st, score_correct = correct_count st,
                   score_total = total_count st, score_percentage = ?sc,
                   statistics = get_statistics db'\<rparr>"
      by (auto simp: check_answers_def Let_def)
    with Inr s r show ?thesis by blast
  qed
qed

section \<open>Statistics after an attempt\<close>

lemma example_check:
  "check_answers empty_database ''2024-05-01T12:00:00'' example_request =
     (Inr example_response, example_saved)"
  by code_simp

lemma missing_answer_check:
  "check_answers example_saved ''2024-05-01T12:05:00'' missing_answer_request =
     (Inr missing_answer_response, missing_answer_saved)"
  by code_simp

lemma sum_scores_bounds:
  assumes "\<forall>t \<in> set ts. 0 \<le> final_score t \<and> final_score t \<le> 100"
  shows "0 \<le> sum_list (map final_score ts) \<and> sum_list (map final_score ts) \<le> 100 * int (length ts)"
  using assms by (induction ts) auto

lemma average_score_range:
  assumes "\<forall>t \<in> set (quiz_attempts d). 0 \<le> final_score t \<and> final_score t \<le> 100"
  shows "0 \<le> average_score (get_statistics d) \<and> average_score (get_statistics d) \<le> 100"
proof (cases "quiz_attempts d = []")
  case True
  then show ?thesis by (simp add: get_statistics_def avg_final_score_def)
next
  case False
  let ?s = "sum_list (map final_score (quiz_attempts d))" and ?n = "int (length (quiz_attempts d))"
  from sum_scores_bounds [OF assms] have s: "0 \<le> ?s" "?s \<le> 100 * ?n" by simp_all
  from False have n: "0 < ?n" by simp
  have "truediv ?s ?n = to_double False ?s ?n"
    using s(1) n by (simp add: truediv_def)
  with to_double_at_most [OF s(1) n s(2)] have "at_most (truediv ?s ?n) 100" by simp
  from py_round_at_most [OF this] False show ?thesis
    by (simp add: get_statistics_def avg_final_score_def)
qed

lemma round_half_even_ge:
  assumes "0 < d" "k * d \<le> n"
  shows "k \<le> round_half_even n d"
proof -
  have "(k * d) div d \<le> n div d" using assms by (intro zdiv_mono1) simp_all
  then have "k \<le> n div d" using assms(1) by simp
  then show ?thesis by (auto simp: round_half_even_def Let_def)
qed

lemma to_double_at_least:
  assumes "0 < d" "0 \<le> k" "k * d \<le> n" "n \<le> K * d" "K < 2 ^ 53"
  shows "at_least (to_double False n d) k"
proof (cases "n = 0")
  case True
  with assms(1,2,3) have "k = 0"
    by (metis mult_eq_0_iff mult_nonneg_nonneg order_antisym less_imp_le less_irrefl)
  with True show ?thesis by (simp add: to_double_def)
next
  case False
  from assms(1,2,3) have "0 \<le> n"
    by (meson less_imp_le mult_nonneg_nonneg order_trans)
  with False have pos: "0 < n" by simp
  define e where "e = max (floor_log2 n d - 52) (- 1074)"
  from floor_log2_small [OF pos assms(1,4,5)] have e: "e \<le> 0" by (simp add: e_def)
  have td: "to_double False n d =
      (if 0 \<le> e then Double False (round_half_even n (d * 2 ^ nat e)) e
       else Double False (round_half_even (n * 2 ^ nat (- e)) d) e)"
    using False by (simp add: to_double_def Let_def e_def)
  show ?thesis
  proof (cases "0 \<le> e")
    case True
    with e have e0: "e = 0" by simp
    have "k \<le> round_half_even n d" using assms(1,3) by (rule round_half_even_ge)
    then show ?thesis unfolding td using e0 by simp
  next
    case neg: False
    let ?p = "(2::int) ^ nat (- e)"
    have "(k * d) * ?p \<le> n * ?p" using assms(3) by (intro mult_right_mono) simp_all
    then have "(k * ?p) * d \<le> n * ?p" by (simp add: mult.commute mult.left_commute)
    with assms(1) have "k * ?p \<le> round_half_even (n * ?p) d" by (rule round_half_even_ge)
    then show ?thesis unfolding td using neg e by simp
  qed
qed

lemma py_round_at_least:
  assumes "at_least x k"
  shows "k \<le> py_round x"
proof -
  obtain s m e where x: "x = Double s m e" by (cases x)
  from assms x have h: "\<not> s" "e \<le> 0" "k * 2 ^ nat (- e) \<le> m" by simp_all
  show ?thesis
  proof (cases "0 \<le> e")
    case True
    with h(2) have "e = 0" by simp
    with h x show ?thesis by simp
  next
    case False
    have "k \<le> round_half_even m (2 ^ nat (- e))"
      using h(3) by (intro round_half_even_ge) simp_all
    then show ?thesis using False x h(1) by simp
  qed
qed

lemma py_round_zero: "is_zero x \<Longrightarrow> py_round x = 0"
  by (cases x) (simp add: round_half_even_def)

lemma average_score_formula:
  "average_score (get_statistics d) =
     (if quiz_attempts d = [] then 0
      else py_round (truediv (sum_list (map final_score (quiz_attempts d)))
                             (int (length (quiz_attempts d)))))"
  by (simp add: get_statistics_def avg_final_score_def py_round_zero)

lemma div_mult_le_int:
  assumes "0 < (b::int)"
  shows "(a div b) * b \<le> a"
proof -
  have "a = a div b * b + a mod b" by simp
  moreover have "0 \<le> a mod b" using assms by simp
  ultimately show ?thesis by linarith
qed

lemma average_score_between:
  assumes "\<forall>t \<in> set (quiz_attempts d). 0 \<le> final_score t \<and> final_score t \<le> 100"
    "quiz_attempts d \<noteq> []"
  shows "sum_list (map final_score (quiz_attempts d)) div int (length (quiz_attempts d))
           \<le> average_score (get_statistics d) \<and>
         average_score (get_statistics d)
           \<le> - ((- sum_list (map final_score (quiz_attempts d))) div int (length (quiz_attempts d)))"
proof -
  let ?s = "sum_list (map final_score (quiz_attempts d))" and ?n = "int (length (quiz_attempts d))"
  from sum_scores_bounds [OF assms(1)] have s: "0 \<le> ?s" "?s \<le> 100 * ?n" by simp_all
  from assms(2) have n: "0 < ?n" by simp
  have t: "truediv ?s ?n = to_double False ?s ?n"
    using s(1) n by (simp add: truediv_def)
  let ?lo = "?s div ?n" and ?hi = "- ((- ?s) div ?n)"
  have lo: "0 \<le> ?lo" "?lo * ?n \<le> ?s"
    using s(1) n div_mult_le_int [OF n, of ?s] by (simp_all add: pos_imp_zdiv_nonneg_iff)
  have hi: "?s \<le> ?hi * ?n"
  proof -
    have "((- ?s) div ?n) * ?n \<le> - ?s" using n by (rule div_mult_le_int)
    then show ?thesis by simp
  qed
  have hi100: "?hi \<le> 100"
  proof -
    have "- (100 * ?n) \<le> - ?s" using s(2) by simp
    then have "(- (100 * ?n)) div ?n \<le> (- ?s) div ?n" by (rule zdiv_mono1) (rule n)
    moreover have "- (100 * ?n) = (- 100) * ?n" by simp
    then have "(- (100 * ?n)) div ?n = - 100" using n by (simp only: nonzero_mult_div_cancel_right)
    ultimately show ?thesis by simp
  qed
  then have k53: "?hi < 2 ^ 53" by simp
  from to_double_at_least [OF n lo(1) lo(2) hi k53] have "at_least (truediv ?s ?n) ?lo"
    by (simp add: t)
  from py_round_at_least [OF this] have 1: "?lo \<le> py_round (truediv ?s ?n)" .
  from to_double_at_most [OF s(1) n hi k53] have "at_most (truediv ?s ?n) ?hi"
    by (simp add: t)
  from py_round_at_most [OF this] have 2: "py_round (truediv ?s ?n) \<le> ?hi" by simp
  from 1 2 assms(2) show ?thesis by (simp add: average_score_formula)
qed

text \<open>
  Claim C6. When a request has recorded its attempt, the statistics in the response are
  those of the database after the commit: the number of attempts is one more than
  before, and the number of perfect scores is one more than before exactly when the
  percentage of the new attempt is 100. The statistics are computed from the attempt
  rows alone: the number of rows, the number of rows with a score of 100, and the
  average score, which is the float quotient of the sum of all scores, the new one
  included, by their number, rounded to an integer, and 0 for a database without
  attempts. When the scores lie between 0 and 100, so does the average, and it is the
  exact mean rounded down or up to a neighbouring integer.
\<close>

theorem statistics_after_attempt:
  assumes "check_answers db now req = (Inr resp, db')"
  shows "statistics resp = get_statistics db' \<and>
    total_attempts (get_statistics db') = total_attempts (get_statistics db) + 1 \<and>
    perfect_scores (get_statistics db') =
      perfect_scores (get_statistics db) + (if score_percentage resp = 100 then 1 else 0) \<and>
    total_attempts (get_statistics db') = int (length (quiz_attempts db')) \<and>
    perfect_scores (get_statistics db') =
      int (length (filter (\<lambda>t. final_score t = 100) (quiz_attempts db'))) \<and>
    average_score (get_statistics db') =
      py_round (truediv (sum_list (map final_score (quiz_attempts db)) + score_percentage resp)
                        (int (length (quiz_attempts db)) + 1)) \<and>
    average_score (get_statistics d) =
      (if quiz_attempts d = [] then 0
       else py_round (truediv (sum_list (map final_score (quiz_attempts d)))
                              (int (length (quiz_attempts d))))) \<and>
    (quiz_attempts d = [] \<longrightarrow> average_score (get_statistics d) = 0) \<and>
    ((\<forall>t \<in> set (quiz_attempts db). 0 \<le> final_score t \<and> final_score t \<le> 100) \<longrightarrow>
       0 \<le> average_score (get_statistics db') \<and> average_score (get_statistics db') \<le> 100 \<and>
       sum_list (map final_score (quiz_attempts db')) div int (length (quiz_attempts db'))
         \<le> average_score (get_statistics db') \<and>
       average_score (get_statistics db')
         \<le> - ((- sum_list (map final_score (quiz_attempts db'))) div int (length (quiz_attempts db'))))"
proof -
  from check_answers_Inr [OF assms] obtain st aid where
    g: "grade (get_quizData req) (get_answers req) = Inr st"
    and s: "save_attempt db (client_address req) now
             (percentage (correct_count st) (total_count st))
             (correct_count st) (total_count st) (results st) = (Inr aid, db')"
    and r: "resp = \<lparr>results_out = results st, score_correct = correct_count st,
                   score_total = total_count st,
                   score_percentage = percentage (correct_count st) (total_count st),
                   statistics = get_statistics db'\<rparr>"
    by blast
  let ?sc = "percentage (correct_count st) (total_count st)"
  from save_attempt_Inr [OF s] obtain a where
    t: "quiz_attempts db' = quiz_attempts db @
             [\<lparr>attempt_rowid = aid, ip_address = a, timestamp = now, final_score = ?sc,
               correct_count_col = correct_count st, total_count_col = total_count st\<rparr>]"
    by blast
  have sc: "score_percentage resp = ?sc" by (simp add: r)
  have 1: "statistics resp = get_statistics db'" by (simp add: r)
  have 2: "total_attempts (get_statistics db') = total_attempts (get_statistics db) + 1"
    by (simp add: get_statistics_def t)
  have 3: "perfect_scores (get_statistics db') =
      perfect_scores (get_statistics db) + (if score_percentage resp = 100 then 1 else 0)"
    by (simp add: get_statistics_def t sc)
  have 4: "total_attempts (get_statistics db') = int (length (quiz_attempts db'))"
    by (simp add: get_statistics_def)
  have 5: "perfect_scores (get_statistics db') =
      int (length (filter (\<lambda>t. final_score t = 100) (quiz_attempts db')))"
    by (simp add: get_statistics_def)
  have ne: "quiz_attempts db' \<noteq> []" by (simp add: t)
  have 6: "average_score (get_statistics db') =
      py_round (truediv (sum_list (map final_score (quiz_attempts db)) + score_percentage resp)
                        (int (length (quiz_attempts db)) + 1))"
    unfolding average_score_formula [of db'] sc by (simp add: t add.commute)
  have 7: "average_score (get_statistics d) =
      (if quiz_attempts d = [] then 0
       else py_round (truediv (sum_list (map final_score (quiz_attempts d)))
                              (int (length (quiz_attempts d)))))"
    by (rule average_score_formula)
  then have 8: "quiz_attempts d = [] \<longrightarrow> average_score (get_statistics d) = 0"
    by simp
  have 9: "0 \<le> average_score (get_statistics db') \<and> average_score (get_statistics db') \<le> 100 \<and>
       sum_list (map final_score (quiz_attempts db')) div int (length (quiz_attempts db'))
         \<le> average_score (get_statistics db') \<and>
       average_score (get_statistics db')
         \<le> - ((- sum_list (map final_score (quiz_attempts db'))) div int (length (quiz_attempts db')))"
    if old: "\<forall>t \<in> set (quiz_attempts db). 0 \<le> final_score t \<and> final_score t \<le> 100"
  proof -
    from grade_prefix [OF g, of "length (get_answers req)"]
    have c: "0 \<le> correct_count st" "correct_count st \<le> total_count st"
      by (simp_all add: g)
    from percentage_bounds [OF c] old
    have new: "\<forall>t \<in> set (quiz_attempts db'). 0 \<le> final_score t \<and> final_score t \<le> 100"
      by (simp add: t)
    from average_score_range [OF new] average_score_between [OF new ne] show ?thesis by blast
  qed
  from 1 2 3 4 5 6 7 8 9 show ?thesis by blast
qed

theorem statistics_after_attempt_witness:
  "check_answers empty_database ''2024-05-01T12:00:00'' example_request =
     (Inr example_response, example_saved) \<and>
   check_answers example_saved ''2024-05-01T12:05:00'' missing_answer_request =
     (Inr missing_answer_response, missing_answer_saved) \<and>
   quiz_attempts empty_database = [] \<and>
   map final_score (quiz_attempts example_saved) = [100] \<and>
   average_score (get_statistics empty_database) = 0 \<and>
   score_percentage example_response = 100 \<and>
   total_attempts (get_statistics example_saved) = total_attempts (get_statistics empty_database) + 1 \<and>
   perfect_scores (get_statistics example_saved) = perfect_scores (get_statistics empty_database) + 1 \<and>
   score_percentage missing_answer_response \<noteq> 100 \<and>
   total_attempts (get_statistics missing_answer_saved) = total_attempts (get_statistics example_saved) + 1 \<and>
   perfect_scores (get_statistics missing_answer_saved) = perfect_scores (get_statistics example_saved) \<and>
   average_score (get_statistics missing_answer_saved) = py_round (truediv (100 + 50) (1 + 1)) \<and>
   py_round (truediv (100 + 50) (1 + 1)) = 75 \<and>
   sum_list (map final_score (quiz_attempts missing_answer_saved)) div
     int (length (quiz_attempts missing_answer_saved)) \<le> average_score (get_statistics missing_answer_saved) \<and>
   average_score (get_statistics missing_answer_saved) \<le> 100"
proof -
  note a = statistics_after_attempt [OF example_check, of empty_database]
  note b = statistics_after_attempt [OF missing_answer_check, of empty_database]
  have e: "quiz_attempts empty_database = []" by (simp add: empty_database_def)
  have r: "\<forall>t \<in> set (quiz_attempts example_saved). 0 \<le> final_score t \<and> final_score t \<le> 100"
    by (simp add: example_saved_def)
  have m: "map final_score (quiz_attempts example_saved) = [100]"
    by (simp add: example_saved_def)
  have p: "score_percentage example_response = 100" "score_percentage missing_answer_response \<noteq> 100"
      "score_percentage missing_answer_response = 50"
    by (simp_all add: example_response_def missing_answer_response_def)
  from a e have a0: "average_score (get_statistics empty_database) = 0" by blast
  from a p(1) have a1:
    "total_attempts (get_statistics example_saved) = total_attempts (get_statistics empty_database) + 1"
    "perfect_scores (get_statistics example_saved) = perfect_scores (get_statistics empty_database) + 1"
    by simp_all
  from b p(2) have b1:
    "total_attempts (get_statistics missing_answer_saved) = total_attempts (get_statistics example_saved) + 1"
    "perfect_scores (get_statistics missing_answer_saved) = perfect_scores (get_statistics example_saved)"
    by simp_all
  from b have "average_score (get_statistics missing_answer_saved) =
      py_round (truediv (sum_list (map final_score (quiz_attempts example_saved)) +
                           score_percentage missing_answer_response)
                        (int (length (quiz_attempts example_saved)) + 1))"
    by blast
  then have b2: "average_score (get_statistics missing_answer_saved) =
      py_round (truediv (100 + 50) (1 + 1))"
    by (simp add: m p(3) example_saved_def)
  have v: "py_round (truediv (100 + 50) (1 + 1)) = 75" by code_simp
  from b r have b3: "sum_list (map final_score (quiz_attempts missing_answer_saved)) div
      int (length (quiz_attempts missing_answer_saved)) \<le> average_score (get_statistics missing_answer_saved)"
    "average_score (get_statistics missing_answer_saved) \<le> 100"
    by blast+
  from example_check missing_answer_check e m a0 p(1,2) a1 b1 b2 v b3 show ?thesis by blast
qed

section \<open>The stored user answer\<close>

lemma grade_results_nth:
  assumes "grade qd xs = Inr st"
  shows "length (results st) = length xs \<and>
    (\<forall>i < length xs.
       wordIndex (xs ! i) = Some (wordIndex_res (results st ! i)) \<and>
       isLevel1_res (results st ! i) = get_isLevel1 (xs ! i) \<and>
       userAnswer (results st ! i) = strip (get_answer (xs ! i)))"
proof -
  from assms have g: "grade_loop qd tally0 xs = Inr st" by (simp add: grade_def)
  from grade_loop_results [OF g] have len: "length (results st) = length xs"
    by (auto simp: tally0_def)
  have "wordIndex (xs ! i) = Some (wordIndex_res (results st ! i)) \<and>
       isLevel1_res (results st ! i) = get_isLevel1 (xs ! i) \<and>
       userAnswer (results st ! i) = strip (get_answer (xs ! i))"
    if i: "i < length xs" for i
  proof -
    from grade_loop_nth [OF g i] obtain s s' where
      s: "grade_answer qd s (xs ! i) = Inr s'" "results s' = results s @ [results st ! i]"
      by (auto simp: tally0_def)
    from grade_answer_step [OF s(1)] s(2) show ?thesis by auto
  qed
  with len show ?thesis by blast
qed

text \<open>
  Claim C8. When a request succeeds, the user answer of every result in the response and
  of every answer row written for it is the submitted answer with the whitespace at both
  ends removed and nothing else changed: the submitted answer is that user answer with
  whitespace before and after it. The lower-cased form is used in the comparison only.
\<close>

theorem user_answer_trimmed_only:
  assumes "check_answers db now req = (Inr resp, db')"
  shows "length (results_out resp) = length (get_answers req) \<and>
    (\<exists>rows. quiz_answers db' = quiz_answers db @ rows \<and>
       length rows = length (get_answers req) \<and>
       (\<forall>i < length (get_answers req).
          userAnswer (results_out resp ! i) = strip (get_answer (get_answers req ! i)) \<and>
          user_answer (rows ! i) = strip (get_answer (get_answers req ! i)) \<and>
          (\<exists>l t. get_answer (get_answers req ! i) = l @ user_answer (rows ! i) @ t \<and>
             list_all isspace l \<and> list_all isspace t)))"
proof -
  from check_answers_Inr [OF assms] obtain st aid where
    g: "grade (get_quizData req) (get_answers req) = Inr st"
    and s: "save_attempt db (client_address req) now
             (percentage (correct_count st) (total_count st))
             (correct_count st) (total_count st) (results st) = (Inr aid, db')"
    and r: "results_out resp = results st"
    by force
  note gr = grade_results_nth [OF g]
  from gr have len: "length (results st) = length (get_answers req)" by blast
  from save_attempt_Inr [OF s] obtain rows where
    rows: "quiz_answers db' = quiz_answers db @ rows" "length rows = length (results st)"
      "\<forall>i < length (results st). \<exists>rowid sp. correctAnswer (results st ! i) = Some sp \<and>
          rows ! i = answer_row_of rowid aid (results st ! i) sp"
    by blast
  have each: "userAnswer (results_out resp ! i) = strip (get_answer (get_answers req ! i)) \<and>
          user_answer (rows ! i) = strip (get_answer (get_answers req ! i)) \<and>
          (\<exists>l t. get_answer (get_answers req ! i) = l @ user_answer (rows ! i) @ t \<and>
             list_all isspace l \<and> list_all isspace t)"
    if i: "i < length (get_answers req)" for i
  proof -
    from gr i have u: "userAnswer (results st ! i) = strip (get_answer (get_answers req ! i))"
      by blast
    from rows(3) i len have "user_answer (rows ! i) = userAnswer (results st ! i)"
      by (auto simp: answer_row_of_fields)
    with u have p: "user_answer (rows ! i) = strip (get_answer (get_answers req ! i))" by simp
    from strip_decompose [of "get_answer (get_answers req ! i)"] p u r show ?thesis by simp
  qed
  then have all: "\<forall>i < length (get_answers req).
          userAnswer (results_out resp ! i) = strip (get_answer (get_answers req ! i)) \<and>
          user_answer (rows ! i) = strip (get_answer (get_answers req ! i)) \<and>
          (\<exists>l t. get_answer (get_answers req ! i) = l @ user_answer (rows ! i) @ t \<and>
             list_all isspace l \<and> list_all isspace t)"
    by blast
  have len': "length (results_out resp) = length (get_answers req)" using len r by simp
  have rl: "length rows = length (get_answers req)" using rows(2) len by simp
  from len' rows(1) rl all show ?thesis by blast
qed

theorem user_answer_trimmed_only_witness:
  "check_answers empty_database ''2024-05-01T12:00:00'' example_request =
     (Inr example_response, example_saved) \<and>
   get_answer (get_answers example_request ! 0) = ''Cancelled '' \<and>
   userAnswer (results_out example_response ! 0) = ''Cancelled'' \<and>
   user_answer (quiz_answers example_saved ! 0) = ''Cancelled'' \<and>
   lower (strip ''Cancelled '') = ''cancelled''"
proof -
  from user_answer_trimmed_only [OF example_check] obtain rows where
    r: "quiz_answers example_saved = quiz_answers empty_database @ rows"
       "\<forall>i < length (get_answers example_request).
          userAnswer (results_out example_response ! i) =
            strip (get_answer (get_answers example_request ! i)) \<and>
          user_answer (rows ! i) = strip (get_answer (get_answers example_request ! i))"
    by blast
  have i: "0 < length (get_answers example_request)"
    by (simp add: example_request_def get_answers_def)
  have a: "get_answer (get_answers example_request ! 0) = ''Cancelled ''"
    by (simp add: example_request_def get_answers_def get_answer_def level1_answer_def)
  have s: "strip ''Cancelled '' = ''Cancelled''" "lower (strip ''Cancelled '') = ''cancelled''"
    by code_simp+
  from r(1) have rows: "rows = quiz_answers example_saved" by (simp add: empty_database_def)
  from r(2) i a s(1) rows
  have "userAnswer (results_out example_response ! 0) = ''Cancelled''"
    "user_answer (quiz_answers example_saved ! 0) = ''Cancelled''"
    by auto
  with example_check a s(2) show ?thesis by simp
qed

section \<open>Malformed submissions\<close>

lemma grade_answer_malformed:
  assumes "wordIndex a = None \<or>
    (\<exists>i. wordIndex a = Some i \<and> (int (length qd) \<le> i \<or> i < - int (length qd)))"
  shows "grade_answer qd st a = Inl KeyError \<or> grade_answer qd st a = Inl IndexError"
  using assms by (auto simp: grade_answer_def py_index_def Let_def)

lemma grade_loop_fails:
  assumes "a \<in> set xs" "\<And>st. \<exists>e. grade_answer qd st a = Inl e"
  shows "\<exists>e. grade_loop qd st xs = Inl e"
  using assms(1)
proof (induction xs arbitrary: st)
  case Nil
  then show ?case by simp
next
  case (Cons x xs)
  show ?case
  proof (cases "grade_answer qd st x")
    case (Inl e)
    then show ?thesis by simp
  next
    case (Inr s)
    show ?thesis
    proof (cases "a = x")
      case True
      with assms(2) [of st] Inr show ?thesis by simp
    next
      case False
      with Cons.prems have "a \<in> set xs" by simp
      from Cons.IH [OF this, of s] Inr show ?thesis by simp
    qed
  qed
qed

lemma missing_index_check:
  "check_answers example_saved ''2024-05-01T12:05:00'' missing_index_request =
     (Inl KeyError, example_saved)"
  by code_simp

lemma index_out_of_range_check:
  "check_answers example_saved ''2024-05-01T12:05:00'' index_out_of_range_request =
     (Inl IndexError, example_saved)"
  by code_simp

text \<open>
  A level-1 submission without the key \<open>answer\<close> neither fails the request nor is
  skipped: it is graded as a wrong answer, counted in the total, and stored.
\<close>

theorem missing_answer_counterexample:
  "answer missing_answer = None \<and>
   get_answers missing_answer_request ! 0 = missing_answer \<and>
   check_answers example_saved ''2024-05-01T12:05:00'' missing_answer_request =
     (Inr missing_answer_response, missing_answer_saved) \<and>
   results_out missing_answer_response ! 0 =
     \<lparr>wordIndex_res = 0, isLevel1_res = True, correct = False,
      correctAnswer = Some ''cancelled'', userAnswer = [], country_res = None\<rparr> \<and>
   score_total missing_answer_response = 2 \<and>
   length (quiz_answers missing_answer_saved) = length (quiz_answers example_saved) + 2"
  by code_simp

text \<open>
  Claim C3, as amended. When some submission of a request has no word index, or a word
  index that is at least the number of questions or below its negation, the request
  fails as a whole and the database is unchanged. A submission without the key
  \<open>answer\<close> is graded exactly as one whose answer is the empty string.
\<close>

theorem malformed_request:
  "((\<exists>a \<in> set (get_answers req). wordIndex a = None \<or>
       (\<exists>i. wordIndex a = Some i \<and>
          (int (length (get_quizData req)) \<le> i \<or> i < - int (length (get_quizData req))))) \<longrightarrow>
      (\<exists>e. check_answers db now req = (Inl e, db))) \<and>
   grade_answer qd st (a\<lparr>answer := None\<rparr>) = grade_answer qd st (a\<lparr>answer := Some []\<rparr>)"
proof (intro conjI impI)
  assume "\<exists>a \<in> set (get_answers req). wordIndex a = None \<or>
       (\<exists>i. wordIndex a = Some i \<and>
          (int (length (get_quizData req)) \<le> i \<or> i < - int (length (get_quizData req))))"
  then obtain a where a: "a \<in> set (get_answers req)"
    "wordIndex a = None \<or>
       (\<exists>i. wordIndex a = Some i \<and>
          (int (length (get_quizData req)) \<le> i \<or> i < - int (length (get_quizData req))))"
    by blast
  have "\<exists>e. grade_answer (get_quizData req) st a = Inl e" for st
    using grade_answer_malformed [OF a(2), of st] by blast
  from grade_loop_fails [OF a(1) this, of tally0] obtain e where
    "grade (get_quizData req) (get_answers req) = Inl e" by (auto simp: grade_def)
  then have "check_answers db now req = (Inl e, db)" by (simp add: check_answers_def)
  then show "\<exists>e. check_answers db now req = (Inl e, db)" by blast
next
  have e: "get_answer (a\<lparr>answer := None\<rparr>) = get_answer (a\<lparr>answer := Some []\<rparr>)"
    "get_isLevel1 (a\<lparr>answer := None\<rparr>) = get_isLevel1 (a\<lparr>answer := Some []\<rparr>)"
    "wordIndex (a\<lparr>answer := None\<rparr>) = wordIndex (a\<lparr>answer := Some []\<rparr>)"
    "country (a\<lparr>answer := None\<rparr>) = country (a\<lparr>answer := Some []\<rparr>)"
    by (simp_all add: get_answer_def get_isLevel1_def)
  then have n: "new_result i (a\<lparr>answer := None\<rparr>) = new_result i (a\<lparr>answer := Some []\<rparr>)" for i
    by (simp add: new_result_def)
  show "grade_answer qd st (a\<lparr>answer := None\<rparr>) = grade_answer qd st (a\<lparr>answer := Some []\<rparr>)"
    unfolding grade_answer_def e n ..
qed

theorem malformed_request_witness:
  "get_answers missing_index_request ! 1 \<in> set (get_answers missing_index_request) \<and>
   wordIndex (get_answers missing_index_request ! 1) = None \<and>
   check_answers example_saved ''2024-05-01T12:05:00'' missing_index_request =
     (Inl KeyError, example_saved) \<and>
   get_answers index_out_of_range_request ! 1 \<in> set (get_answers index_out_of_range_request) \<and>
   wordIndex (get_answers index_out_of_range_request ! 1) = Some 2 \<and>
   int (length (get_quizData index_out_of_range_request)) \<le> 2 \<and>
   check_answers example_saved ''2024-05-01T12:05:00'' index_out_of_range_request =
     (Inl IndexError, example_saved) \<and>
   grade_answer example_quiz tally0 (missing_answer\<lparr>answer := None\<rparr>) =
     grade_answer example_quiz tally0 (missing_answer\<lparr>answer := Some []\<rparr>)"
proof -
  let ?a = "get_answers missing_index_request ! 1"
  let ?b = "get_answers index_out_of_range_request ! 1"
  have a: "?a \<in> set (get_answers missing_index_request)" "wordIndex ?a = None"
    by (simp_all add: missing_index_request_def get_answers_def)
  have b: "?b \<in> set (get_answers index_out_of_range_request)" "wordIndex ?b = Some 2"
      "int (length (get_quizData index_out_of_range_request)) \<le> 2"
    by (simp_all add: index_out_of_range_request_def get_answers_def get_quizData_def
        level1_answer_def example_quiz_def)
  note t1 = malformed_request [of missing_index_request example_saved
      "''2024-05-01T12:05:00''" example_quiz tally0 missing_answer]
  note t2 = malformed_request [of index_out_of_range_request example_saved
      "''2024-05-01T12:05:00''" example_quiz tally0 missing_answer]
  from t1 a have "\<exists>e. check_answers example_saved ''2024-05-01T12:05:00'' missing_index_request =
      (Inl e, example_saved)" by blast
  moreover from t2 b have "\<exists>e. check_answers example_saved ''2024-05-01T12:05:00''
      index_out_of_range_request = (Inl e, example_saved)" by blast
  moreover from t1 have "grade_answer example_quiz tally0 (missing_answer\<lparr>answer := None\<rparr>) =
     grade_answer example_quiz tally0 (missing_answer\<lparr>answer := Some []\<rparr>)" by blast
  ultimately show ?thesis
    using a b missing_index_check index_out_of_range_check by simp
qed

section \<open>A skipped submission and the store\<close>

text \<open>
  The result of a skipped submission has no correct answer, and the column
  \<open>correct_answer\<close> of \<open>quiz_answers\<close> is \<open>NOT NULL\<close>: when the grading loop has
  skipped a submission, the \<open>INSERT\<close> of its result raises \<open>IntegrityError\<close>, the
  request fails, and nothing is stored.
\<close>

lemma skipped_result_not_stored:
  assumes "grade (get_quizData req) (get_answers req) = Inr st"
    "\<exists>r \<in> set (results st). correctAnswer r = None"
  shows "check_answers db now req = (Inl IntegrityError, db)"
proof -
  let ?sc = "percentage (correct_count st) (total_count st)"
  obtain out d where s: "save_attempt db (client_address req) now ?sc
      (correct_count st) (total_count st) (results st) = (out, d)"
    by (cases "save_attempt db (client_address req) now ?sc
      (correct_count st) (total_count st) (results st)")
  show ?thesis
  proof (cases out)
    case (Inl e)
    from save_attempt_Inl [OF s [unfolded Inl]] have "d = db" "e = IntegrityError" by simp_all
    with assms(1) s Inl show ?thesis by (simp add: check_answers_def Let_def)
  next
    case (Inr aid)
    from save_attempt_Inr [OF s [unfolded Inr]]
    have all: "\<forall>i < length (results st). \<exists>sp. correctAnswer (results st ! i) = Some sp"
      by blast
    from assms(2) obtain i where "i < length (results st)" "correctAnswer (results st ! i) = None"
      by (auto simp: in_set_conv_nth)
    with all show ?thesis by auto
  qed
qed

lemma skipped_request_check:
  "check_answers example_saved ''2024-05-01T12:05:00'' skipped_request =
     (Inl IntegrityError, example_saved)"
  by code_simp

end
